theory Spec2Isabelle
  imports Complex_Main
begin

section \<open>The live voice session of LingoMate: data model\<close>

text \<open>
  The development embeds \<^verbatim>\<open>src/components/LiveConversation.tsx\<close>: the React
  component that owns the microphone stream, the two audio contexts, the streaming
  session and the playback timeline. The component keeps its state in \<^verbatim>\<open>useRef\<close>
  cells and \<^verbatim>\<open>useState\<close> hooks; the record below has one field for each of them,
  under the source's name, and further fields for the browser objects the component acts
  on (which contexts are closed, which tracks are stopped, which playback nodes were
  started and stopped, what went to the console and to the session).

  Times are seconds. JavaScript numbers are IEEE doubles; the model takes them as exact
  reals, so the rounding of \<^verbatim>\<open>+=\<close> is not modelled.

  Browser objects are identified by natural numbers. A \<^verbatim>\<open>MediaStream\<close> is the list
  of its track ids. A JavaScript \<^verbatim>\<open>Set\<close> is a duplicate-free list in insertion order.
\<close>

record message =
  audio_data :: "string option"
    \<comment> \<open>\<^verbatim>\<open>message.serverContent?.modelTurn?.parts?.[0]?.inlineData?.data\<close>\<close>
  interrupted :: bool
    \<comment> \<open>\<^verbatim>\<open>message.serverContent?.interrupted\<close>\<close>

record blob =
  data :: string
  mimeType :: string

record state =
  isConnected :: bool
  isTalking :: bool
  error :: "string option"
  inputAudioContextRef :: "nat option"
  outputAudioContextRef :: "nat option"
  outputNodeRef :: "nat option"
  streamRef :: "nat list option"
  processorRef :: "nat option"
  sourceRef :: "nat option"
  inputAnalyserRef :: "nat option"
  outputAnalyserRef :: "nat option"
  sessionRef :: "nat option"
  nextStartTimeRef :: real
  sourcesRef :: "nat list"
  pending :: "(nat \<times> bool) list"
    \<comment> \<open>\<^verbatim>\<open>onmessage\<close> invocations suspended at \<^verbatim>\<open>await decodeAudioData\<close>:
        the invocation and the \<^verbatim>\<open>interrupted\<close> flag of its message\<close>
  scheduled :: "(nat \<times> real \<times> real) list"
    \<comment> \<open>the calls \<^verbatim>\<open>source.start(when)\<close> so far: unit, start time, buffer duration\<close>
  stopped :: "nat set"
    \<comment> \<open>playback units on which \<^verbatim>\<open>stop()\<close> returned\<close>
  stop_raises :: "nat set"
    \<comment> \<open>playback units on which \<^verbatim>\<open>stop()\<close> throws\<close>
  n_contexts :: nat
  n_nodes :: nat
  closed_contexts :: "nat set"
  disconnected :: "nat set"
  stopped_tracks :: "nat set"
  connects :: nat
    \<comment> \<open>the calls of \<^verbatim>\<open>ai.live.connect\<close> so far\<close>
  closed_sessions :: "nat set"
  sent :: "blob list"
    \<comment> \<open>the chunks \<^verbatim>\<open>sendRealtimeInput\<close> accepted\<close>
  console :: "string list"
    \<comment> \<open>the messages of \<^verbatim>\<open>console.error\<close>\<close>

datatype js_error = InvalidStateError | DecodeError | NotAllowedError | SessionError

text \<open>The values of the refs and hooks when the component mounts.\<close>

definition init :: state where
  "init = \<lparr> isConnected = False, isTalking = False, error = None,
      inputAudioContextRef = None, outputAudioContextRef = None, outputNodeRef = None,
      streamRef = None, processorRef = None, sourceRef = None,
      inputAnalyserRef = None, outputAnalyserRef = None, sessionRef = None,
      nextStartTimeRef = 0, sourcesRef = [], pending = [], scheduled = [],
      stopped = {}, stop_raises = {}, n_contexts = 0, n_nodes = 0,
      closed_contexts = {}, disconnected = {}, stopped_tracks = {},
      connects = 0, closed_sessions = {}, sent = [], console = [] \<rparr>"

subsection \<open>The set of playing units\<close>

definition set_add :: "nat \<Rightarrow> nat list \<Rightarrow> nat list" where
  "set_add u us = (if u \<in> set us then us else us @ [u])"

definition set_delete :: "nat \<Rightarrow> nat list \<Rightarrow> nat list" where
  "set_delete u us = removeAll u us"

text \<open>\<^verbatim>\<open>source.stop()\<close> of the browser: it either returns or throws.\<close>

definition source_stop :: "nat \<Rightarrow> state \<Rightarrow> js_error + state" where
  "source_stop u s =
     (if u \<in> stop_raises s then Inl InvalidStateError
      else Inr (s\<lparr>stopped := insert u (stopped s)\<rparr>))"

text \<open>\<^verbatim>\<open>try { src.stop(); } catch(e) {}\<close>\<close>

definition try_stop :: "nat \<Rightarrow> state \<Rightarrow> state" where
  "try_stop u s = (case source_stop u s of Inl e \<Rightarrow> s | Inr s' \<Rightarrow> s')"

text \<open>\<^verbatim>\<open>sourcesRef.current.forEach(src => { try { src.stop(); } catch(e) {} })\<close>\<close>

definition stop_all :: "state \<Rightarrow> state" where
  "stop_all s = fold try_stop (sourcesRef s) s"

section \<open>The inbound message handler\<close>

text \<open>
  Lines 153 to 160 of \<^verbatim>\<open>onmessage\<close>: the interruption block. It has no suspension
  point, so it is one function from state to state.
\<close>

definition interrupt :: "state \<Rightarrow> state" where
  "interrupt s = (stop_all s)\<lparr>sourcesRef := [], nextStartTimeRef := 0\<rparr>"

definition onmessage_interruption :: "bool \<Rightarrow> state \<Rightarrow> state" where
  "onmessage_interruption flag s = (if flag then interrupt s else s)"

text \<open>A JavaScript string is truthy when it is defined and not empty.\<close>

definition truthy :: "string option \<Rightarrow> bool" where
  "truthy a = (case a of None \<Rightarrow> False | Some str \<Rightarrow> str \<noteq> [])"

text \<open>
  \<^verbatim>\<open>onmessage\<close> is an \<^verbatim>\<open>async\<close> function with one suspension point, the
  \<^verbatim>\<open>await decodeAudioData(...)\<close> of line 133. \<open>onmessage_begin\<close> is the part that runs
  when the message arrives (\<open>now\<close> is \<^verbatim>\<open>ctx.currentTime\<close> as read on line 131);
  when the audio block is entered the invocation \<open>h\<close> is suspended. When the block is
  not entered the handler runs through to the interruption block at once.
\<close>

definition onmessage_begin :: "nat \<Rightarrow> message \<Rightarrow> real \<Rightarrow> state \<Rightarrow> state" where
  "onmessage_begin h m now s =
     (if truthy (audio_data m) \<and> outputAudioContextRef s \<noteq> None \<and> outputNodeRef s \<noteq> None
      then s\<lparr>nextStartTimeRef := max (nextStartTimeRef s) now,
             pending := pending s @ [(h, interrupted m)]\<rparr>
      else onmessage_interruption (interrupted m) s)"

text \<open>
  \<^verbatim>\<open>decodeAudioData\<close> lives in \<^verbatim>\<open>utils/audioUtils\<close>, which is not among the sources embedded here.
  Its promise is taken as it settles: with a buffer, of which the handler reads only
  the duration, or with an error.
\<close>

datatype decode_result = Decoded real | Rejected

text \<open>
  \<open>onmessage_resume\<close> is the rest of the invocation \<open>h\<close>, run when its decode settles.
  On a buffer: lines 140 to 150 (create the source, start it at the cursor as it is now,
  advance the cursor, add the source to the set) and then the interruption block. On an
  error the exception leaves the handler: nothing after line 133 runs, and the promise of
  the handler is rejected with it (the first component of the result).
\<close>

definition onmessage_resume :: "nat \<Rightarrow> decode_result \<Rightarrow> state \<Rightarrow> js_error option \<times> state" where
  "onmessage_resume h r s =
     (case map_of (pending s) h of
        None \<Rightarrow> (None, s)
      | Some flag \<Rightarrow>
          (let s0 = s\<lparr>pending := filter (\<lambda>p. fst p \<noteq> h) (pending s)\<rparr> in
           case r of
             Rejected \<Rightarrow> (Some DecodeError, s0)
           | Decoded d \<Rightarrow>
               (None, onmessage_interruption flag
                  (s0\<lparr>scheduled := scheduled s0 @ [(h, nextStartTimeRef s0, d)],
                      nextStartTimeRef := nextStartTimeRef s0 + d,
                      sourcesRef := set_add h (sourcesRef s0)\<rparr>))))"

text \<open>The listener of line 144: \<^verbatim>\<open>sourcesRef.current.delete(source)\<close>.\<close>

definition on_ended :: "nat \<Rightarrow> state \<Rightarrow> state" where
  "on_ended u s = s\<lparr>sourcesRef := set_delete u (sourcesRef s)\<rparr>"

text \<open>
  The event loop runs one callback at a time. A run of the scheduler is a list of the
  callbacks in the order the loop ran them.
\<close>

datatype event =
    Message nat message real
  | DecodeDone nat decode_result
  | Ended nat

fun step :: "event \<Rightarrow> state \<Rightarrow> state" where
  "step (Message h m now) s = onmessage_begin h m now s"
| "step (DecodeDone h r) s = snd (onmessage_resume h r s)"
| "step (Ended u) s = on_ended u s"

definition run :: "event list \<Rightarrow> state \<Rightarrow> state" where
  "run evs s = fold step evs s"

text \<open>
  One payload handled from arrival to scheduling with nothing in between: the message
  carries audio and no interruption flag, and its decode yields a buffer of duration \<open>d\<close>.
\<close>

definition audio_message :: "string \<Rightarrow> message" where
  "audio_message a = \<lparr> audio_data = Some a, interrupted = False \<rparr>"

definition enqueue :: "nat \<Rightarrow> real \<Rightarrow> real \<Rightarrow> event list" where
  "enqueue h now d = [Message h (audio_message ''UklGRg=='') now, DecodeDone h (Decoded d)]"

fun enqueues :: "nat \<Rightarrow> (real \<times> real) list \<Rightarrow> event list" where
  "enqueues h [] = []"
| "enqueues h ((now, d) # ps) = enqueue h now d @ enqueues (Suc h) ps"

text \<open>The output side is set up: the audio block of \<^verbatim>\<open>onmessage\<close> is entered.\<close>

definition ready :: "state \<Rightarrow> bool" where
  "ready s = (outputAudioContextRef s \<noteq> None \<and> outputNodeRef s \<noteq> None)"

text \<open>
  The schedule in the words of the specification: a unit starts at the maximum of the
  cursor and the output clock, and the cursor then advances by the unit's duration.
\<close>

fun spec_schedule :: "nat \<Rightarrow> real \<Rightarrow> (real \<times> real) list \<Rightarrow> (nat \<times> real \<times> real) list" where
  "spec_schedule h c [] = []"
| "spec_schedule h c ((now, d) # ps) = (h, max c now, d) # spec_schedule (Suc h) (max c now + d) ps"

fun spec_cursor :: "real \<Rightarrow> (real \<times> real) list \<Rightarrow> real" where
  "spec_cursor c [] = c"
| "spec_cursor c ((now, d) # ps) = spec_cursor (max c now + d) ps"

text \<open>No overlap: each unit starts no earlier than the unit before it ends.\<close>

fun chained :: "(nat \<times> real \<times> real) list \<Rightarrow> bool" where
  "chained ((u, st, d) # (u', st', d') # r) = (st + d \<le> st' \<and> chained ((u', st', d') # r))"
| "chained _ = True"

text \<open>The silence between each unit's end and the start of the next.\<close>

fun gaps :: "(nat \<times> real \<times> real) list \<Rightarrow> real list" where
  "gaps ((u, st, d) # (u', st', d') # r) = (st' - (st + d)) # gaps ((u', st', d') # r)"
| "gaps _ = []"

fun spec_gaps :: "real \<Rightarrow> (real \<times> real) list \<Rightarrow> real list" where
  "spec_gaps e [] = []"
| "spec_gaps e ((now, d) # ps) = max 0 (now - e) # spec_gaps (max e now + d) ps"

section \<open>Teardown and the session lifecycle\<close>

text \<open>
  \<^verbatim>\<open>cleanupAudio\<close>, lines 43 to 70. Each resource is released when its ref is not
  null, and the ref is then cleared. \<^verbatim>\<open>disconnect()\<close>, \<^verbatim>\<open>track.stop()\<close> and
  \<^verbatim>\<open>close()\<close> do not throw; \<^verbatim>\<open>source.stop()\<close> is the one call the source guards.
\<close>

definition stop_tracks :: "nat list \<Rightarrow> state \<Rightarrow> state" where
  "stop_tracks ts s = fold (\<lambda>t st. st\<lparr>stopped_tracks := insert t (stopped_tracks st)\<rparr>) ts s"

definition cleanupAudio :: "state \<Rightarrow> state" where
  "cleanupAudio s =
     (let s1 = (case processorRef s of None \<Rightarrow> s
                | Some p \<Rightarrow> s\<lparr>disconnected := insert p (disconnected s), processorRef := None\<rparr>);
          s2 = (case sourceRef s1 of None \<Rightarrow> s1
                | Some n \<Rightarrow> s1\<lparr>disconnected := insert n (disconnected s1), sourceRef := None\<rparr>);
          s3 = (case streamRef s2 of None \<Rightarrow> s2
                | Some ts \<Rightarrow> (stop_tracks ts s2)\<lparr>streamRef := None\<rparr>);
          s4 = (case inputAudioContextRef s3 of None \<Rightarrow> s3
                | Some c \<Rightarrow> s3\<lparr>closed_contexts := insert c (closed_contexts s3),
                               inputAudioContextRef := None\<rparr>);
          s5 = (case outputAudioContextRef s4 of None \<Rightarrow> s4
                | Some c \<Rightarrow> s4\<lparr>closed_contexts := insert c (closed_contexts s4),
                               outputAudioContextRef := None\<rparr>)
      in (stop_all s5)\<lparr>sourcesRef := []\<rparr>)"

text \<open>
  \<^verbatim>\<open>startSession\<close>, lines 72 to 189, has one suspension point, the
  \<^verbatim>\<open>await getUserMedia\<close> of line 91. \<open>startSession_begin\<close> is the part before it:
  both contexts, the gain node and the two analysers are created.
\<close>

definition startSession_begin :: "state \<Rightarrow> state" where
  "startSession_begin s =
     (let s1 = s\<lparr>error := None\<rparr>;
          s2 = s1\<lparr>inputAudioContextRef := Some (n_contexts s1), n_contexts := Suc (n_contexts s1)\<rparr>;
          s3 = s2\<lparr>outputAudioContextRef := Some (n_contexts s2), n_contexts := Suc (n_contexts s2)\<rparr>;
          s4 = s3\<lparr>outputNodeRef := Some (n_nodes s3), n_nodes := Suc (n_nodes s3)\<rparr>;
          s5 = s4\<lparr>outputAnalyserRef := Some (n_nodes s4), n_nodes := Suc (n_nodes s4)\<rparr>
      in s5\<lparr>inputAnalyserRef := Some (n_nodes s5), n_nodes := Suc (n_nodes s5)\<rparr>)"

datatype media_result = Granted "nat list" | Denied

text \<open>
  The rest of \<^verbatim>\<open>startSession\<close>. With a stream: the stream is kept, \<^verbatim>\<open>ai.live.connect\<close>
  is called and its promise is kept in \<^verbatim>\<open>sessionRef\<close>. With a refusal: the
  \<^verbatim>\<open>catch\<close> block of lines 184 to 188.
\<close>

definition startSession_resume :: "media_result \<Rightarrow> state \<Rightarrow> state" where
  "startSession_resume r s =
     (case r of
        Granted stream \<Rightarrow>
          s\<lparr>streamRef := Some stream, sessionRef := Some (connects s),
            connects := Suc (connects s)\<rparr>
      | Denied \<Rightarrow>
          cleanupAudio (s\<lparr>console := console s @ [''NotAllowedError''],
                          error := Some ''Failed to access microphone or connect to AI.''\<rparr>))"

definition startSession :: "media_result \<Rightarrow> state \<Rightarrow> state" where
  "startSession r s = startSession_resume r (startSession_begin s)"

text \<open>The callbacks \<^verbatim>\<open>onopen\<close>, \<^verbatim>\<open>onclose\<close> and \<^verbatim>\<open>onerror\<close> of the session.\<close>

definition onopen :: "state \<Rightarrow> state" where
  "onopen s =
     (let s1 = s\<lparr>isConnected := True, isTalking := True\<rparr> in
      if inputAudioContextRef s1 = None \<or> streamRef s1 = None then s1
      else (let s2 = s1\<lparr>sourceRef := Some (n_nodes s1), n_nodes := Suc (n_nodes s1)\<rparr>
            in s2\<lparr>processorRef := Some (n_nodes s2), n_nodes := Suc (n_nodes s2)\<rparr>))"

definition onclose :: "state \<Rightarrow> state" where
  "onclose s = s\<lparr>isConnected := False, isTalking := False\<rparr>"

definition onerror :: "state \<Rightarrow> state" where
  "onerror s = s\<lparr>console := console s @ [''ErrorEvent''],
                  error := Some ''Connection error. Please try again.'',
                  isConnected := False\<rparr>"

text \<open>
  \<^verbatim>\<open>stopSession\<close>, lines 191 to 204. When a session promise is recorded the function
  awaits it. The promise belongs to the SDK; it is taken as it settles, fulfilled with a
  session (whose \<^verbatim>\<open>close()\<close> returns or throws) or rejected, or as never settling, in
  which case the function never resumes and the result is \<open>None\<close>.
\<close>

datatype settled = Fulfilled bool | RejectedPromise

definition session_close :: "bool \<Rightarrow> nat \<Rightarrow> state \<Rightarrow> js_error + state" where
  "session_close throws p s =
     (if throws then Inl SessionError
      else Inr (s\<lparr>closed_sessions := insert p (closed_sessions s)\<rparr>))"

text \<open>The \<^verbatim>\<open>try\<close>/\<^verbatim>\<open>catch\<close> of lines 193 to 198, once the promise \<open>p\<close> has settled.\<close>

definition stopSession_try :: "nat \<Rightarrow> settled \<Rightarrow> state \<Rightarrow> state" where
  "stopSession_try p r s =
     (case r of
        RejectedPromise \<Rightarrow> s\<lparr>console := console s @ [''Error closing session'']\<rparr>
      | Fulfilled throws \<Rightarrow>
          (case session_close throws p s of
             Inl e \<Rightarrow> s\<lparr>console := console s @ [''Error closing session'']\<rparr>
           | Inr s' \<Rightarrow> s'))"

text \<open>Lines 201 to 203.\<close>

definition stopSession_finish :: "state \<Rightarrow> state" where
  "stopSession_finish s = (cleanupAudio s)\<lparr>isConnected := False, isTalking := False\<rparr>"

definition stopSession :: "settled option \<Rightarrow> state \<Rightarrow> state option" where
  "stopSession w s =
     (case sessionRef s of
        None \<Rightarrow> Some (stopSession_finish s)
      | Some p \<Rightarrow>
          (case w of
             None \<Rightarrow> None
           | Some r \<Rightarrow> Some (stopSession_finish ((stopSession_try p r s)\<lparr>sessionRef := None\<rparr>))))"

text \<open>
  Idle: nothing is connected, no resource is referenced and nothing is playing.
\<close>

definition idle :: "state \<Rightarrow> bool" where
  "idle s = (\<not> isConnected s \<and> \<not> isTalking s \<and> sessionRef s = None \<and> streamRef s = None
     \<and> inputAudioContextRef s = None \<and> outputAudioContextRef s = None
     \<and> processorRef s = None \<and> sourceRef s = None \<and> sourcesRef s = [])"

text \<open>
  The resources a state refers to are released: every track of its stream is stopped and
  both of its contexts are closed.
\<close>

definition released :: "state \<Rightarrow> state \<Rightarrow> bool" where
  "released s s' =
     ((case streamRef s of None \<Rightarrow> True | Some ts \<Rightarrow> set ts \<subseteq> stopped_tracks s')
      \<and> (case inputAudioContextRef s of None \<Rightarrow> True | Some c \<Rightarrow> c \<in> closed_contexts s')
      \<and> (case outputAudioContextRef s of None \<Rightarrow> True | Some c \<Rightarrow> c \<in> closed_contexts s'))"

section \<open>The capture callback\<close>

text \<open>
  \<^verbatim>\<open>onaudioprocess\<close>, lines 112 to 120. \<^verbatim>\<open>createBlob\<close> lives in
  \<^verbatim>\<open>utils/audioUtils\<close>, which is not among the sources embedded here, and is a parameter. The promise
  chain \<^verbatim>\<open>sessionPromise.then(...).catch(...)\<close> is taken when its callbacks run: the
  chunk is accepted by the session, or \<^verbatim>\<open>sendRealtimeInput\<close> throws, or the session
  promise is rejected; the last two end in the \<^verbatim>\<open>catch\<close> callback.
\<close>

datatype send_result = Delivered | SendRaises | SessionRejected

definition session_send :: "send_result \<Rightarrow> blob \<Rightarrow> state \<Rightarrow> js_error + state" where
  "session_send r b s =
     (case r of
        Delivered \<Rightarrow> Inr (s\<lparr>sent := sent s @ [b]\<rparr>)
      | SendRaises \<Rightarrow> Inl SessionError
      | SessionRejected \<Rightarrow> Inl SessionError)"

definition onaudioprocess :: "(real list \<Rightarrow> blob) \<Rightarrow> send_result \<Rightarrow> real list \<Rightarrow> state \<Rightarrow> state" where
  "onaudioprocess createBlob r inputData s =
     (let pcmBlob = createBlob inputData in
      case session_send r pcmBlob s of
        Inl e \<Rightarrow> s\<lparr>console := console s @ [''Error sending audio input:'']\<rparr>
      | Inr s' \<Rightarrow> s')"

text \<open>The frames of a capture, each with the fate of its send, in order.\<close>

fun capture :: "(real list \<Rightarrow> blob) \<Rightarrow> (real list \<times> send_result) list \<Rightarrow> state \<Rightarrow> state" where
  "capture createBlob [] s = s"
| "capture createBlob ((inputData, r) # fs) s =
     capture createBlob fs (onaudioprocess createBlob r inputData s)"

definition delivered :: "(real list \<Rightarrow> blob) \<Rightarrow> (real list \<times> send_result) list \<Rightarrow> blob list" where
  "delivered createBlob fs = map (\<lambda>p. createBlob (fst p)) (filter (\<lambda>p. snd p = Delivered) fs)"

definition failures :: "(real list \<times> send_result) list \<Rightarrow> nat" where
  "failures fs = length (filter (\<lambda>p. snd p \<noteq> Delivered) fs)"

text \<open>
  States of a session for the examples: connecting (the stream is acquired and
  \<^verbatim>\<open>ai.live.connect\<close> has been called), live (the session has opened), and an error
  event that arrives while connecting.
\<close>

definition connecting :: state where
  "connecting = startSession (Granted [0]) init"

definition live :: state where
  "live = onopen connecting"

definition errored :: state where
  "errored = onerror connecting"

definition playing_A :: state where
  "playing_A = run (enqueue 0 0 1) live"

definition interruption_message :: message where
  "interruption_message = \<lparr> audio_data = None, interrupted = True \<rparr>"

text \<open>Predicates on runs, for the statements below.\<close>

text \<open>The event is the settling of the decode that invocation \<open>h\<close> awaits.\<close>

fun settles :: "nat \<Rightarrow> event \<Rightarrow> bool" where
  "settles h (DecodeDone k r) = (k = h)"
| "settles h _ = False"

text \<open>The event is not a message with the interruption flag.\<close>

fun no_interruption :: "event \<Rightarrow> bool" where
  "no_interruption (Message h m now) = (\<not> interrupted m)"
| "no_interruption _ = True"

text \<open>No suspended handler carries the interruption flag.\<close>

definition plain_pending :: "state \<Rightarrow> bool" where
  "plain_pending s = list_all (\<lambda>p. \<not> snd p) (pending s)"

text \<open>The unit started last, if any, ends by \<open>c\<close>.\<close>

definition ends_by :: "(nat \<times> real \<times> real) list \<Rightarrow> real \<Rightarrow> bool" where
  "ends_by sched c = (case rev sched of [] \<Rightarrow> True | (u, st, d) # _ \<Rightarrow> st + d \<le> c)"

text \<open>The cursor is not before the end of the unit started last.\<close>

definition cursor_ahead :: "state \<Rightarrow> bool" where
  "cursor_ahead s = ends_by (scheduled s) (nextStartTimeRef s)"

text \<open>A message of the event is handled at clock \<open>t\<close> or later.\<close>

fun arrives_from :: "real \<Rightarrow> event \<Rightarrow> bool" where
  "arrives_from t (Message h m now) = (t \<le> now)"
| "arrives_from t _ = True"

definition audio_interruption_message :: message where
  "audio_interruption_message = \<lparr> audio_data = Some ''UklGRg=='', interrupted = True \<rparr>"

text \<open>Unit A is playing and the handler of a second payload is suspended at its decode.\<close>

definition pending_B :: state where
  "pending_B = step (Message 2 (audio_message ''UklGRg=='') (1/5)) playing_A"

text \<open>The schedule so far has no overlap, the cursor is past it and no flag is suspended.\<close>

definition chain_inv :: "state \<Rightarrow> bool" where
  "chain_inv s = (chained (scheduled s) \<and> cursor_ahead s \<and> plain_pending s)"

text \<open>Two payloads arrive one after the other, before either decode has settled.\<close>

definition burst :: "nat \<Rightarrow> real \<Rightarrow> nat \<Rightarrow> real \<Rightarrow> event list" where
  "burst h1 t1 h2 t2 =
     [Message h1 (audio_message ''UklGRg=='') t1, Message h2 (audio_message ''UklGRg=='') t2]"

text \<open>
  Two states that are equal, or that differ only in the cursor of the first being
  clamped to the clock \<open>t\<close>, with no handler suspended.
\<close>

definition sim :: "real \<Rightarrow> state \<Rightarrow> state \<Rightarrow> bool" where
  "sim t s1 s2 = (s1 = s2 \<or>
     (pending s2 = [] \<and> s1 = s2\<lparr>nextStartTimeRef := max (nextStartTimeRef s2) t\<rparr>))"

text \<open>
  Further states for the examples: the live session after a stop whose \<^verbatim>\<open>close()\<close>
  returned, and a start that has created its contexts and awaits the microphone.
\<close>

definition stopped_live :: state where
  "stopped_live = stopSession_finish ((stopSession_try 0 (Fulfilled False) live)\<lparr>sessionRef := None\<rparr>)"

definition awaiting_microphone :: state where
  "awaiting_microphone = startSession_begin init"

text \<open>An encoder for the examples, in place of \<^verbatim>\<open>createBlob\<close>.\<close>

definition sample_blob :: "real list \<Rightarrow> blob" where
  "sample_blob inputData =
     \<lparr> data = replicate (length inputData) CHR ''A'', mimeType = ''audio/pcm;rate=16000'' \<rparr>"

section \<open>Sequential playback\<close>

lemma filter_fst_notin: "h \<notin> fst ` set ps \<Longrightarrow> filter (\<lambda>p. fst p \<noteq> h) ps = ps"
  by (induction ps) auto

lemma map_of_append_fresh: "h \<notin> fst ` set ps \<Longrightarrow> map_of (ps @ [(h, b)]) h = Some b"
  by (induction ps) auto

lemma run_append: "run (xs @ ys) s = run ys (run xs s)"
  by (simp add: run_def)

lemma begin_audio:
  assumes "ready s" and "truthy (audio_data m)"
  shows "onmessage_begin h m now s =
     s\<lparr>nextStartTimeRef := max (nextStartTimeRef s) now,
       pending := pending s @ [(h, interrupted m)]\<rparr>"
  using assms by (simp add: onmessage_begin_def ready_def)

lemma resume_decoded:
  assumes "map_of (pending s) h = Some flag"
  shows "snd (onmessage_resume h (Decoded d) s) =
     onmessage_interruption flag
       (s\<lparr>pending := filter (\<lambda>p. fst p \<noteq> h) (pending s),
          scheduled := scheduled s @ [(h, nextStartTimeRef s, d)],
          nextStartTimeRef := nextStartTimeRef s + d,
          sourcesRef := set_add h (sourcesRef s)\<rparr>)"
  using assms by (simp add: onmessage_resume_def Let_def)

lemma run_enqueue:
  assumes "ready s" and "h \<notin> fst ` set (pending s)"
  shows "run (enqueue h now d) s =
     s\<lparr>nextStartTimeRef := max (nextStartTimeRef s) now + d,
       scheduled := scheduled s @ [(h, max (nextStartTimeRef s) now, d)],
       sourcesRef := set_add h (sourcesRef s)\<rparr>"
proof -
  let ?m = "audio_message ''UklGRg==''"
  let ?s1 = "onmessage_begin h ?m now s"
  have s1: "?s1 = s\<lparr>nextStartTimeRef := max (nextStartTimeRef s) now,
       pending := pending s @ [(h, False)]\<rparr>"
    using begin_audio [OF assms(1), of ?m h now] by (simp add: audio_message_def truthy_def)
  have look: "map_of (pending ?s1) h = Some False"
    using map_of_append_fresh [OF assms(2), of False] by (simp add: s1)
  have "run (enqueue h now d) s = snd (onmessage_resume h (Decoded d) ?s1)"
    by (simp add: run_def enqueue_def)
  also have "\<dots> = s\<lparr>nextStartTimeRef := max (nextStartTimeRef s) now + d,
       scheduled := scheduled s @ [(h, max (nextStartTimeRef s) now, d)],
       sourcesRef := set_add h (sourcesRef s)\<rparr>"
    unfolding resume_decoded [OF look]
    using assms(2) by (simp add: s1 onmessage_interruption_def filter_fst_notin)
  finally show ?thesis .
qed

lemma run_enqueues:
  "ready s \<Longrightarrow> pending s = [] \<Longrightarrow>
   scheduled (run (enqueues h ps) s) = scheduled s @ spec_schedule h (nextStartTimeRef s) ps
   \<and> nextStartTimeRef (run (enqueues h ps) s) = spec_cursor (nextStartTimeRef s) ps
   \<and> pending (run (enqueues h ps) s) = [] \<and> ready (run (enqueues h ps) s)"
proof (induction ps arbitrary: s h)
  case Nil
  then show ?case by (simp add: run_def)
next
  case (Cons p ps)
  obtain now d where p: "p = (now, d)" by (cases p)
  let ?s1 = "run (enqueue h now d) s"
  have fresh: "h \<notin> fst ` set (pending s)" using Cons.prems by simp
  have s1: "?s1 = s\<lparr>nextStartTimeRef := max (nextStartTimeRef s) now + d,
       scheduled := scheduled s @ [(h, max (nextStartTimeRef s) now, d)],
       sourcesRef := set_add h (sourcesRef s)\<rparr>"
    by (rule run_enqueue [OF Cons.prems(1) fresh])
  have r1: "ready ?s1" and p1: "pending ?s1 = []"
    using Cons.prems by (simp_all add: s1 ready_def)
  from Cons.IH [OF r1 p1, of "Suc h"] show ?case
    by (simp add: p run_append s1)
qed

lemma chained_spec_schedule: "chained (spec_schedule h c ps)"
proof (induction ps arbitrary: h c)
  case Nil
  then show ?case by simp
next
  case (Cons p ps)
  obtain now d where p: "p = (now, d)" by (cases p)
  show ?case
  proof (cases ps)
    case Nil
    then show ?thesis by (simp add: p)
  next
    case (Cons q qs)
    obtain now' d' where q: "q = (now', d')" by (cases q)
    from Cons.IH [of "Suc h" "max c now + d"] show ?thesis
      by (simp add: p Cons q)
  qed
qed

lemma gaps_spec_schedule_Cons:
  "gaps (spec_schedule h c ((now, d) # ps)) = spec_gaps (max c now + d) ps"
proof (induction ps arbitrary: h c now d)
  case Nil
  then show ?case by simp
next
  case (Cons q qs)
  obtain now' d' where q: "q = (now', d')" by (cases q)
  from Cons [of "Suc h" "max c now + d" now' d'] show ?case
    by (simp add: q max_def)
qed


lemma gaps_spec_schedule: "gaps (spec_schedule h c ps) = tl (spec_gaps c ps)"
proof (cases ps)
  case Nil
  then show ?thesis by simp
next
  case (Cons p qs)
  obtain now d where p: "p = (now, d)" by (cases p)
  show ?thesis unfolding Cons p gaps_spec_schedule_Cons by simp
qed

lemma live_scheduler:
  "ready live" "pending live = []" "scheduled live = []" "nextStartTimeRef live = 0"
  "sourcesRef live = []" "stopped live = {}" "stop_raises live = {}"
  by (simp_all add: live_def connecting_def onopen_def startSession_def startSession_begin_def
      startSession_resume_def init_def ready_def Let_def)

text \<open>
  Claim C1, as amended. Payloads are handled one after the other, each from arrival to
  scheduling, on a state whose output side is set up and where no handler is suspended.
  Then the calls of \<^verbatim>\<open>source.start\<close> are those of the specification's schedule: each
  unit starts at the maximum of the cursor and the output clock read at its arrival, and
  the cursor advances by its duration. So no unit starts before the one before it ends,
  and the silence before a unit is exactly the time by which the clock at its arrival has
  passed the end of the unit before it (zero when it has not). That silence has no bound.
\<close>

theorem sequential_schedule:
  assumes "ready s" and "pending s = []"
  shows "scheduled (run (enqueues h ps) s) = scheduled s @ spec_schedule h (nextStartTimeRef s) ps
    \<and> nextStartTimeRef (run (enqueues h ps) s) = spec_cursor (nextStartTimeRef s) ps
    \<and> chained (spec_schedule h (nextStartTimeRef s) ps)
    \<and> gaps (spec_schedule h (nextStartTimeRef s) ps) = tl (spec_gaps (nextStartTimeRef s) ps)"
  using run_enqueues [OF assms, of h ps] chained_spec_schedule gaps_spec_schedule by simp

text \<open>
  The scenario of the specification: A of one second at clock 0, then B of half a second
  at clock 0.2. B starts at 1 and the cursor ends at 1.5.
\<close>

theorem sequential_schedule_witness:
  "ready live \<and> pending live = []
   \<and> scheduled (run (enqueues 0 [(0, 1), (1/5, 1/2)]) live) = [(0, 0, 1), (1, 1, 1/2)]
   \<and> nextStartTimeRef (run (enqueues 0 [(0, 1), (1/5, 1/2)]) live) = 3/2
   \<and> chained [(0, 0, 1), (1, 1, 1/2)]
   \<and> gaps [(0, 0, 1), (1, 1, 1/2)] = [0]"
  using sequential_schedule [OF live_scheduler(1) live_scheduler(2), of 0 "[(0, 1), (1/5, 1/2)]"]
  by (simp add: live_scheduler)

text \<open>
  Claim C1 as stated fails: a payload of one second at clock 0 and the next at clock 5
  leave four seconds of silence, beyond any scheduling jitter.
\<close>

theorem gap_unbounded_counterexample:
  "scheduled (run (enqueues 0 [(0, 1), (5, 1/2)]) live) = [(0, 0, 1), (1, 5, 1/2)]
   \<and> gaps (scheduled (run (enqueues 0 [(0, 1), (5, 1/2)]) live)) = [4]
   \<and> \<not> list_all (\<lambda>g. g < 1) (gaps (scheduled (run (enqueues 0 [(0, 1), (5, 1/2)]) live)))"
  using run_enqueues [OF live_scheduler(1) live_scheduler(2), of 0 "[(0, 1), (5, 1/2)]"]
  by (simp add: live_scheduler)

lemma gap_exceeds_any_bound:
  "0 \<le> eps \<Longrightarrow> gaps (scheduled (run (enqueues 0 [(0, 1), (1 + eps, d)]) live)) = [eps]"
  using run_enqueues [OF live_scheduler(1) live_scheduler(2), of 0 "[(0, 1), (1 + eps, d)]"]
  by (simp add: live_scheduler)

section \<open>Interruption\<close>

lemma try_stop_eq:
  "try_stop u s = (if u \<in> stop_raises s then s else s\<lparr>stopped := insert u (stopped s)\<rparr>)"
  by (simp add: try_stop_def source_stop_def)

lemma fold_try_stop:
  "fold try_stop us s = s\<lparr>stopped := stopped s \<union> (set us - stop_raises s)\<rparr>"
proof (induction us arbitrary: s)
  case Nil
  then show ?case by simp
next
  case (Cons u us)
  have unfold: "fold try_stop (u # us) s = fold try_stop us (try_stop u s)" by simp
  show ?case
  proof (cases "u \<in> stop_raises s")
    case True
    then have t: "try_stop u s = s" by (simp add: try_stop_eq)
    from True have "set us - stop_raises s = set (u # us) - stop_raises s" by auto
    then show ?thesis unfolding unfold t Cons.IH by simp
  next
    case False
    then have t: "try_stop u s = s\<lparr>stopped := insert u (stopped s)\<rparr>" by (simp add: try_stop_eq)
    from False have "insert u (stopped s) \<union> (set us - stop_raises s)
        = stopped s \<union> (set (u # us) - stop_raises s)" by auto
    then show ?thesis unfolding unfold t Cons.IH by simp
  qed
qed

lemma stop_all_eq:
  "stop_all s = s\<lparr>stopped := stopped s \<union> (set (sourcesRef s) - stop_raises s)\<rparr>"
  by (simp add: stop_all_def fold_try_stop)

lemma interrupt_eq:
  "interrupt s = s\<lparr>stopped := stopped s \<union> (set (sourcesRef s) - stop_raises s),
                   sourcesRef := [], nextStartTimeRef := 0\<rparr>"
  by (simp add: interrupt_def stop_all_eq)

lemma interrupt_cursor: "interrupt (s\<lparr>nextStartTimeRef := c\<rparr>) = interrupt s"
  by (simp add: interrupt_eq)

lemma interruption_only:
  "interrupted m \<Longrightarrow> \<not> truthy (audio_data m) \<Longrightarrow> step (Message h m now) s = interrupt s"
  by (simp add: onmessage_begin_def onmessage_interruption_def)

lemma playing_A_eq:
  "playing_A = live\<lparr>nextStartTimeRef := 1, scheduled := [(0, 0, 1)], sourcesRef := [0]\<rparr>"
proof -
  have fresh: "0 \<notin> fst ` set (pending live)" by (simp add: live_scheduler)
  show ?thesis
    unfolding playing_A_def run_enqueue [OF live_scheduler(1) fresh]
    by (simp add: live_scheduler set_add_def)
qed

lemma playing_A_scheduler:
  "ready playing_A" "pending playing_A = []" "scheduled playing_A = [(0, 0, 1)]"
  "nextStartTimeRef playing_A = 1" "sourcesRef playing_A = [0]"
  "stopped playing_A = {}" "stop_raises playing_A = {}"
  using live_scheduler by (simp_all add: playing_A_eq ready_def)



text \<open>The same when \<^verbatim>\<open>stop()\<close> throws on the unit: the error is swallowed.\<close>

lemma interruption_swallows_stop_error:
  "sourcesRef (step (Message 1 interruption_message (3/10)) (playing_A\<lparr>stop_raises := {0}\<rparr>)) = []
   \<and> nextStartTimeRef (step (Message 1 interruption_message (3/10)) (playing_A\<lparr>stop_raises := {0}\<rparr>)) = 0
   \<and> stopped (step (Message 1 interruption_message (3/10)) (playing_A\<lparr>stop_raises := {0}\<rparr>)) = {}"
proof -
  have i: "interrupted interruption_message" by (simp add: interruption_message_def)
  have a: "\<not> truthy (audio_data interruption_message)"
    by (simp add: interruption_message_def truthy_def)
  show ?thesis
    unfolding interruption_only [OF i a] by (simp add: interrupt_eq playing_A_scheduler)
qed

section \<open>Handlers suspended at the decode\<close>

lemma map_of_filter_other:
  "k \<noteq> h \<Longrightarrow> map_of (filter (\<lambda>p. fst p \<noteq> k) ps) h = map_of ps h"
  by (induction ps) auto

lemma pending_interruption: "pending (onmessage_interruption f s) = pending s"
  by (simp add: onmessage_interruption_def interrupt_eq)

lemma pending_survives:
  assumes "\<not> settles h ev" and "map_of (pending s) h = Some f"
  shows "map_of (pending (step ev s)) h = Some f"
proof (cases ev)
  case (Message k m now)
  show ?thesis using assms(2)
    by (simp add: Message onmessage_begin_def pending_interruption map_add_def)
next
  case (DecodeDone k r)
  then have kh: "k \<noteq> h" using assms(1) by simp
  show ?thesis
  proof (cases "map_of (pending s) k")
    case None
    then show ?thesis using assms(2) by (simp add: DecodeDone onmessage_resume_def)
  next
    case (Some g)
    then show ?thesis using assms(2) kh
      by (cases r) (simp_all add: DecodeDone onmessage_resume_def Let_def pending_interruption
          map_of_filter_other)
  qed
next
  case (Ended u)
  then show ?thesis using assms(2) by (simp add: on_ended_def)
qed

lemma pending_survives_run:
  "list_all (\<lambda>ev. \<not> settles h ev) evs \<Longrightarrow> map_of (pending s) h = Some f
   \<Longrightarrow> map_of (pending (run evs s)) h = Some f"
proof (induction evs arbitrary: s)
  case Nil
  then show ?case by (simp add: run_def)
next
  case (Cons ev evs)
  have "map_of (pending (step ev s)) h = Some f"
    using Cons.prems by (simp add: pending_survives)
  from Cons.IH [OF _ this] Cons.prems(1) show ?case by (simp add: run_def)
qed

lemma resume_with_interruption:
  assumes "map_of (pending t) h = Some True"
  shows "step (DecodeDone h (Decoded d)) t =
     t\<lparr>pending := filter (\<lambda>p. fst p \<noteq> h) (pending t),
       scheduled := scheduled t @ [(h, nextStartTimeRef t, d)],
       stopped := stopped t \<union> (insert h (set (sourcesRef t)) - stop_raises t),
       sourcesRef := [], nextStartTimeRef := 0\<rparr>"
proof -
  have "set (set_add h (sourcesRef t)) = insert h (set (sourcesRef t))"
    by (auto simp: set_add_def)
  then show ?thesis
    by (simp add: resume_decoded [OF assms] onmessage_interruption_def interrupt_eq)
qed

lemma pending_B_scheduler:
  "ready pending_B" "pending pending_B = [(2, False)]" "scheduled pending_B = [(0, 0, 1)]"
  "nextStartTimeRef pending_B = 1" "sourcesRef pending_B = [0]"
  "stopped pending_B = {}" "stop_raises pending_B = {}"
proof -
  have a: "truthy (audio_data (audio_message ''UklGRg==''))"
    by (simp add: audio_message_def truthy_def)
  have eq: "pending_B = playing_A\<lparr>nextStartTimeRef := max (nextStartTimeRef playing_A) (1/5),
      pending := pending playing_A @ [(2, interrupted (audio_message ''UklGRg==''))]\<rparr>"
    unfolding pending_B_def step.simps by (rule begin_audio [OF playing_A_scheduler(1) a])
  show "ready pending_B" "pending pending_B = [(2, False)]" "scheduled pending_B = [(0, 0, 1)]"
    "nextStartTimeRef pending_B = 1" "sourcesRef pending_B = [0]"
    "stopped pending_B = {}" "stop_raises pending_B = {}"
    using playing_A_scheduler by (simp_all add: eq ready_def audio_message_def)
qed

section \<open>The order of scheduling\<close>

lemma ends_by_mono: "ends_by sched c \<Longrightarrow> c \<le> c' \<Longrightarrow> ends_by sched c'"
  by (auto simp: ends_by_def split: list.splits)

lemma ends_by_snoc: "ends_by (sched @ [(u, st, d)]) c = (st + d \<le> c)"
  by (simp add: ends_by_def)

lemma chained_snoc: "chained (xs @ [(u, st, d)]) = (chained xs \<and> ends_by xs st)"
proof (induction xs rule: chained.induct)
  case (1 u1 st1 d1 u2 st2 d2 r)
  then show ?case by (cases "rev r") (auto simp: ends_by_def)
qed (auto simp: ends_by_def)

lemma plain_pending_flag:
  assumes "plain_pending s" and "map_of (pending s) h = Some f"
  shows "\<not> f"
proof -
  have "(h, f) \<in> set (pending s)" using assms(2) by (rule map_of_SomeD)
  with assms(1) have "\<not> snd (h, f)" unfolding plain_pending_def list_all_iff by blast
  then show ?thesis by simp
qed

lemma chain_inv_step:
  assumes "chain_inv s" and "no_interruption ev"
  shows "chain_inv (step ev s)"
proof (cases ev)
  case (Message h m now)
  then have ni: "\<not> interrupted m" using assms(2) by simp
  have "ends_by (scheduled s) (max (nextStartTimeRef s) now)"
    using assms(1) ends_by_mono [of "scheduled s" "nextStartTimeRef s" "max (nextStartTimeRef s) now"]
    by (simp add: chain_inv_def cursor_ahead_def)
  then show ?thesis using assms(1) ni
    by (simp add: Message onmessage_begin_def onmessage_interruption_def chain_inv_def
        plain_pending_def cursor_ahead_def)
next
  case (DecodeDone h r)
  show ?thesis
  proof (cases "map_of (pending s) h")
    case None
    then show ?thesis using assms(1) by (simp add: DecodeDone onmessage_resume_def)
  next
    case (Some f)
    have nf: "\<not> f" using plain_pending_flag [OF _ Some] assms(1) by (simp add: chain_inv_def)
    show ?thesis
    proof (cases r)
      case (Decoded d)
      have "step ev s = s\<lparr>pending := filter (\<lambda>p. fst p \<noteq> h) (pending s),
          scheduled := scheduled s @ [(h, nextStartTimeRef s, d)],
          nextStartTimeRef := nextStartTimeRef s + d,
          sourcesRef := set_add h (sourcesRef s)\<rparr>"
        unfolding DecodeDone Decoded step.simps resume_decoded [OF Some]
        using nf by (simp add: onmessage_interruption_def)
      then show ?thesis using assms(1)
        by (simp add: chain_inv_def chained_snoc ends_by_snoc cursor_ahead_def plain_pending_def
            list_all_iff)
    next
      case Rejected
      then show ?thesis using assms(1) Some
        by (simp add: DecodeDone onmessage_resume_def Let_def chain_inv_def cursor_ahead_def
            plain_pending_def list_all_iff)
    qed
  qed
next
  case (Ended u)
  then show ?thesis using assms(1)
    by (simp add: on_ended_def chain_inv_def cursor_ahead_def plain_pending_def)
qed

lemma chain_inv_run:
  "chain_inv s \<Longrightarrow> list_all no_interruption evs \<Longrightarrow> chain_inv (run evs s)"
proof (induction evs arbitrary: s)
  case Nil
  then show ?case by (simp add: run_def)
next
  case (Cons ev evs)
  have "chain_inv (step ev s)" using Cons.prems by (simp add: chain_inv_step)
  from Cons.IH [OF this] Cons.prems(2) show ?case by (simp add: run_def)
qed

lemma run_burst:
  assumes "ready s" and "pending s = []"
  shows "run (burst h1 t1 h2 t2) s =
     s\<lparr>nextStartTimeRef := max (max (nextStartTimeRef s) t1) t2,
       pending := [(h1, False), (h2, False)]\<rparr>"
  using assms
  by (simp add: run_def burst_def onmessage_begin_def ready_def audio_message_def truthy_def)

lemma resume_plain:
  assumes "map_of (pending s) h = Some False"
  shows "step (DecodeDone h (Decoded d)) s =
     s\<lparr>pending := filter (\<lambda>p. fst p \<noteq> h) (pending s),
       scheduled := scheduled s @ [(h, nextStartTimeRef s, d)],
       nextStartTimeRef := nextStartTimeRef s + d,
       sourcesRef := set_add h (sourcesRef s)\<rparr>"
  unfolding step.simps resume_decoded [OF assms] by (simp add: onmessage_interruption_def)

lemma run_two: "run (evs @ [e1, e2]) s = step e2 (step e1 (run evs s))"
  by (simp add: run_def del: step.simps)

lemma burst_in_order:
  assumes "ready s" and "pending s = []" and "h1 \<noteq> h2"
  shows "scheduled (run (burst h1 t1 h2 t2 @ [DecodeDone h1 (Decoded d1), DecodeDone h2 (Decoded d2)]) s)
     = scheduled s @ [(h1, max (max (nextStartTimeRef s) t1) t2, d1),
                      (h2, max (max (nextStartTimeRef s) t1) t2 + d1, d2)]"
proof -
  let ?b = "run (burst h1 t1 h2 t2) s"
  have b: "?b = s\<lparr>nextStartTimeRef := max (max (nextStartTimeRef s) t1) t2,
       pending := [(h1, False), (h2, False)]\<rparr>"
    by (rule run_burst [OF assms(1) assms(2)])
  have l1: "map_of (pending ?b) h1 = Some False" by (simp add: b)
  let ?c = "step (DecodeDone h1 (Decoded d1)) ?b"
  have c: "pending ?c = [(h2, False)]"
    "scheduled ?c = scheduled s @ [(h1, max (max (nextStartTimeRef s) t1) t2, d1)]"
    "nextStartTimeRef ?c = max (max (nextStartTimeRef s) t1) t2 + d1"
    unfolding resume_plain [OF l1] using assms(3) by (simp_all add: b)
  have l2: "map_of (pending ?c) h2 = Some False" by (simp only: c) simp
  show ?thesis
    unfolding run_two resume_plain [OF l2] by (simp del: step.simps add: c)
qed

lemma burst_swapped:
  assumes "ready s" and "pending s = []" and "h1 \<noteq> h2"
  shows "scheduled (run (burst h1 t1 h2 t2 @ [DecodeDone h2 (Decoded d2), DecodeDone h1 (Decoded d1)]) s)
     = scheduled s @ [(h2, max (max (nextStartTimeRef s) t1) t2, d2),
                      (h1, max (max (nextStartTimeRef s) t1) t2 + d2, d1)]"
proof -
  let ?b = "run (burst h1 t1 h2 t2) s"
  have b: "?b = s\<lparr>nextStartTimeRef := max (max (nextStartTimeRef s) t1) t2,
       pending := [(h1, False), (h2, False)]\<rparr>"
    by (rule run_burst [OF assms(1) assms(2)])
  have l2: "map_of (pending ?b) h2 = Some False" using assms(3) by (simp add: b)
  let ?c = "step (DecodeDone h2 (Decoded d2)) ?b"
  have c: "pending ?c = [(h1, False)]"
    "scheduled ?c = scheduled s @ [(h2, max (max (nextStartTimeRef s) t1) t2, d2)]"
    "nextStartTimeRef ?c = max (max (nextStartTimeRef s) t1) t2 + d2"
    unfolding resume_plain [OF l2] using assms(3) by (simp_all add: b)
  have l1: "map_of (pending ?c) h1 = Some False" by (simp only: c) simp
  show ?thesis
    unfolding run_two resume_plain [OF l1] by (simp del: step.simps add: c)
qed

lemma live_chain: "chained (scheduled live)" "cursor_ahead live"
  by (simp_all add: live_scheduler cursor_ahead_def ends_by_def)

text \<open>
  Claim C3, as amended. The units are started in the order in which their decodes
  settle. The step after the decode (start at the cursor, advance the cursor by the
  duration) runs without suspension, so in every run without an interruption no unit
  starts before the unit started before it ends. Of two payloads arriving in a burst, the
  one whose decode settles first starts first, at the maximum of the cursor and both
  arrival clocks, and the other follows it; when the decodes settle in the order of
  arrival, the units start in the order of arrival.
\<close>

theorem scheduling_follows_completion:
  assumes "ready s" and "pending s = []" and "chained (scheduled s)" and "cursor_ahead s"
    and "h1 \<noteq> h2" and "list_all no_interruption evs"
  shows "chained (scheduled (run evs s))
    \<and> scheduled (run (burst h1 t1 h2 t2 @ [DecodeDone h2 (Decoded d2), DecodeDone h1 (Decoded d1)]) s)
       = scheduled s @ [(h2, max (max (nextStartTimeRef s) t1) t2, d2),
                        (h1, max (max (nextStartTimeRef s) t1) t2 + d2, d1)]
    \<and> scheduled (run (burst h1 t1 h2 t2 @ [DecodeDone h1 (Decoded d1), DecodeDone h2 (Decoded d2)]) s)
       = scheduled s @ [(h1, max (max (nextStartTimeRef s) t1) t2, d1),
                        (h2, max (max (nextStartTimeRef s) t1) t2 + d1, d2)]"
proof -
  have "chain_inv s" using assms(2,3,4) by (simp add: chain_inv_def plain_pending_def)
  then have "chain_inv (run evs s)" using assms(6) by (rule chain_inv_run)
  then have "chained (scheduled (run evs s))" by (simp add: chain_inv_def)
  then show ?thesis
    using burst_swapped [OF assms(1,2,5)] burst_in_order [OF assms(1,2,5)] by simp
qed

text \<open>Two payloads arrive at clocks 0 and 0.1; either decode may settle first.\<close>

theorem scheduling_follows_completion_witness:
  "ready live \<and> pending live = [] \<and> chained (scheduled live) \<and> cursor_ahead live
   \<and> (2::nat) \<noteq> 3
   \<and> list_all no_interruption (burst 2 0 3 (1/10) @ [DecodeDone 3 (Decoded (1/2)), Ended 3])
   \<and> chained (scheduled (run (burst 2 0 3 (1/10) @ [DecodeDone 3 (Decoded (1/2)), Ended 3]) live))
   \<and> scheduled (run (burst 2 0 3 (1/10) @ [DecodeDone 3 (Decoded (1/2)), DecodeDone 2 (Decoded 1)]) live)
       = [(3, 1/10, 1/2), (2, 3/5, 1)]
   \<and> scheduled (run (burst 2 0 3 (1/10) @ [DecodeDone 2 (Decoded 1), DecodeDone 3 (Decoded (1/2))]) live)
       = [(2, 1/10, 1), (3, 11/10, 1/2)]"
proof -
  have n: "(2::nat) \<noteq> 3" by simp
  have e: "list_all no_interruption (burst 2 0 3 (1/10) @ [DecodeDone 3 (Decoded (1/2)), Ended 3])"
    by (simp add: burst_def audio_message_def)
  show ?thesis
    using scheduling_follows_completion [OF live_scheduler(1) live_scheduler(2) live_chain n e,
        of 0 "1/10" "1/2" 1]
    by (simp add: live_scheduler live_chain burst_def audio_message_def)
qed

text \<open>
  Claim C3 as stated fails: payload 2 arrives before payload 3, the decode of 3 settles
  first, and unit 2 starts at 0.5, after unit 3, which starts at 0.
\<close>

theorem enqueue_order_counterexample:
  "map_of (scheduled (run (burst 2 0 3 0 @ [DecodeDone 3 (Decoded (1/2)), DecodeDone 2 (Decoded 1)]) live)) 2
     = Some (1/2, 1)
   \<and> map_of (scheduled (run (burst 2 0 3 0 @ [DecodeDone 3 (Decoded (1/2)), DecodeDone 2 (Decoded 1)]) live)) 3
     = Some (0, 1/2)
   \<and> \<not> fst (the (map_of (scheduled (run (burst 2 0 3 0 @ [DecodeDone 3 (Decoded (1/2)), DecodeDone 2 (Decoded 1)]) live)) 2))
       \<le> fst (the (map_of (scheduled (run (burst 2 0 3 0 @ [DecodeDone 3 (Decoded (1/2)), DecodeDone 2 (Decoded 1)]) live)) 3))"
proof -
  have n: "(2::nat) \<noteq> 3" by simp
  show ?thesis
    unfolding burst_swapped [OF live_scheduler(1) live_scheduler(2) n]
    by (simp add: live_scheduler)
qed

section \<open>Decode failures\<close>

lemma sim_refl: "sim t s s"
  by (simp add: sim_def)

lemma begin_skip:
  "\<not> (truthy (audio_data m) \<and> outputAudioContextRef s \<noteq> None \<and> outputNodeRef s \<noteq> None) \<Longrightarrow>
   onmessage_begin h m now s = onmessage_interruption (interrupted m) s"
  unfolding onmessage_begin_def by (rule if_not_P)

lemma clamp_audio:
  "t \<le> now \<Longrightarrow> truthy (audio_data m) \<and> outputAudioContextRef s \<noteq> None \<and> outputNodeRef s \<noteq> None \<Longrightarrow>
   step (Message h m now) (s\<lparr>nextStartTimeRef := max (nextStartTimeRef s) t\<rparr>)
     = step (Message h m now) s"
  by (simp add: onmessage_begin_def)

lemma clamp_interruption:
  assumes "\<not> (truthy (audio_data m) \<and> outputAudioContextRef s \<noteq> None \<and> outputNodeRef s \<noteq> None)"
    and "interrupted m"
  shows "step (Message h m now) (s\<lparr>nextStartTimeRef := c\<rparr>) = step (Message h m now) s"
proof -
  have n: "\<not> (truthy (audio_data m) \<and> outputAudioContextRef (s\<lparr>nextStartTimeRef := c\<rparr>) \<noteq> None
      \<and> outputNodeRef (s\<lparr>nextStartTimeRef := c\<rparr>) \<noteq> None)"
    using assms(1) by simp
  show ?thesis
    unfolding step.simps begin_skip [OF n] begin_skip [OF assms(1)] onmessage_interruption_def
    using assms(2) by (simp only: if_True interrupt_cursor)
qed

lemma clamp_ignored:
  assumes "\<not> (truthy (audio_data m) \<and> outputAudioContextRef s \<noteq> None \<and> outputNodeRef s \<noteq> None)"
    and "\<not> interrupted m"
  shows "step (Message h m now) s = s"
  unfolding step.simps begin_skip [OF assms(1)] onmessage_interruption_def
  using assms(2) by (simp only: if_False)

lemma clamp_settle:
  "pending s = [] \<Longrightarrow> step (DecodeDone h r) (s\<lparr>nextStartTimeRef := c\<rparr>) = s\<lparr>nextStartTimeRef := c\<rparr>"
  by (simp add: onmessage_resume_def)

lemma clamp_ended:
  "step (Ended u) (s\<lparr>nextStartTimeRef := max (nextStartTimeRef s) t\<rparr>)
     = (step (Ended u) s)\<lparr>nextStartTimeRef := max (nextStartTimeRef (step (Ended u) s)) t\<rparr>"
  "pending (step (Ended u) s) = pending s"
  by (simp_all add: on_ended_def)

lemma sim_step:
  assumes "sim t s1 s2" and "arrives_from t ev"
  shows "sim t (step ev s1) (step ev s2)"
proof -
  from assms(1) consider (same) "s1 = s2"
    | (clamped) "pending s2 = []" "s1 = s2\<lparr>nextStartTimeRef := max (nextStartTimeRef s2) t\<rparr>"
    unfolding sim_def by blast
  then show ?thesis
  proof cases
    case same
    then show ?thesis by (simp only: sim_refl)
  next
    case clamped
    note p = clamped(1) and s1 = clamped(2)
    show ?thesis
    proof (cases ev)
      case (Message h m now)
      then have le: "t \<le> now" using assms(2) by simp
      let ?audio = "truthy (audio_data m) \<and> outputAudioContextRef s2 \<noteq> None \<and> outputNodeRef s2 \<noteq> None"
      show ?thesis
      proof (cases ?audio)
        case True
        have "step ev s1 = step ev s2"
          unfolding Message s1 by (rule clamp_audio [OF le True])
        then show ?thesis by (simp only: sim_refl)
      next
        case False
        show ?thesis
        proof (cases "interrupted m")
          case True
          have "step ev s1 = step ev s2"
            unfolding Message s1 by (rule clamp_interruption [OF False True])
          then show ?thesis by (simp only: sim_refl)
        next
          case nf: False
          have n: "\<not> (truthy (audio_data m) \<and> outputAudioContextRef s1 \<noteq> None \<and> outputNodeRef s1 \<noteq> None)"
            unfolding s1 using False by simp
          have "step ev s1 = s1" "step ev s2 = s2"
            unfolding Message by (rule clamp_ignored [OF n nf], rule clamp_ignored [OF False nf])
          then show ?thesis using assms(1) by (simp only:)
        qed
      qed
    next
      case (DecodeDone h r)
      have p1: "pending s1 = []" unfolding s1 using p by simp
      have "step ev s1 = s1" "step ev s2 = s2"
        unfolding DecodeDone
        using clamp_settle [OF p1, of h r "nextStartTimeRef s1"] clamp_settle [OF p, of h r "nextStartTimeRef s2"]
        by simp_all
      then show ?thesis using assms(1) by (simp only:)
    next
      case (Ended u)
      have "pending (step ev s2) = []"
        and "step ev s1 = (step ev s2)\<lparr>nextStartTimeRef := max (nextStartTimeRef (step ev s2)) t\<rparr>"
        unfolding Ended s1 clamp_ended using p by (simp_all only:)
      then show ?thesis unfolding sim_def by blast
    qed
  qed
qed

lemma sim_run:
  "sim t s1 s2 \<Longrightarrow> list_all (arrives_from t) evs \<Longrightarrow> sim t (run evs s1) (run evs s2)"
proof (induction evs arbitrary: s1 s2)
  case Nil
  then show ?case by (simp add: run_def)
next
  case (Cons ev evs)
  have "sim t (step ev s1) (step ev s2)" using Cons.prems by (simp add: sim_step del: step.simps)
  from Cons.IH [OF this] Cons.prems(2) show ?case by (simp add: run_def del: step.simps)
qed

lemma sim_observe:
  assumes "sim t s1 s2"
  shows "scheduled s1 = scheduled s2 \<and> sourcesRef s1 = sourcesRef s2 \<and> stopped s1 = stopped s2"
proof -
  from assms consider (same) "s1 = s2"
    | (clamped) "s1 = s2\<lparr>nextStartTimeRef := max (nextStartTimeRef s2) t\<rparr>"
    unfolding sim_def by blast
  then show ?thesis
  proof cases
    case same
    then show ?thesis by simp
  next
    case clamped
    show ?thesis unfolding clamped by simp
  qed
qed

lemma failed_message:
  assumes "ready s" and "pending s = []" and "truthy (audio_data m)"
  shows "run [Message h m now, DecodeDone h Rejected] s
     = s\<lparr>nextStartTimeRef := max (nextStartTimeRef s) now\<rparr>"
proof -
  have "step (Message h m now) s = s\<lparr>nextStartTimeRef := max (nextStartTimeRef s) now,
       pending := pending s @ [(h, interrupted m)]\<rparr>"
    unfolding step.simps by (rule begin_audio [OF assms(1) assms(3)])
  then show ?thesis using assms(2)
    by (simp add: run_def onmessage_resume_def del: step.simps) (simp add: onmessage_resume_def)
qed

lemma rejected_changes_nothing:
  "nextStartTimeRef (step (DecodeDone h Rejected) t) = nextStartTimeRef t
   \<and> sourcesRef (step (DecodeDone h Rejected) t) = sourcesRef t
   \<and> scheduled (step (DecodeDone h Rejected) t) = scheduled t
   \<and> stopped (step (DecodeDone h Rejected) t) = stopped t"
  by (cases "map_of (pending t) h") (simp_all add: onmessage_resume_def Let_def)

lemma failed_message_reentrant:
  assumes "ready s" and "h \<notin> fst ` set (pending s)" and "truthy (audio_data m)"
  shows "run [Message h m now, DecodeDone h Rejected] s
     = s\<lparr>nextStartTimeRef := max (nextStartTimeRef s) now\<rparr>"
proof -
  let ?a = "step (Message h m now) s"
  have a: "?a = s\<lparr>nextStartTimeRef := max (nextStartTimeRef s) now,
       pending := pending s @ [(h, interrupted m)]\<rparr>"
    unfolding step.simps by (rule begin_audio [OF assms(1) assms(3)])
  have look: "map_of (pending ?a) h = Some (interrupted m)"
    unfolding a using map_of_append_fresh [OF assms(2), of "interrupted m"] by simp
  have "run [Message h m now, DecodeDone h Rejected] s = snd (onmessage_resume h Rejected ?a)"
    by (simp add: run_def del: step.simps) simp
  also have "\<dots> = ?a\<lparr>pending := filter (\<lambda>p. fst p \<noteq> h) (pending ?a)\<rparr>"
    using look by (simp add: onmessage_resume_def Let_def del: step.simps)
  also have "\<dots> = s\<lparr>nextStartTimeRef := max (nextStartTimeRef s) now\<rparr>"
    unfolding a using filter_fst_notin [OF assms(2)] by simp
  finally show ?thesis .
qed

text \<open>
  Claim C6, as amended. The settling of a decode with an error changes neither the
  cursor, nor the set of playing units, nor what was started or stopped, in whatever
  state it happens. The whole handling of a failing payload (a message without the
  interruption flag) leaves exactly the clamp of line 131 behind, whatever is suspended.
  When the payload arrives with no handler suspended, that clamp is not observable: for
  every later run of callbacks whose messages are handled at that clock or later, the
  units started, the set of playing units and the units stopped are the same as if the
  message had not been delivered, and a payload enqueued next is started as usual. When a
  handler is suspended at the arrival, the clamp moves the start of its unit and of the
  units after it.
\<close>

theorem decode_failure_contained:
  assumes "ready s" and "pending s = []" and "truthy (audio_data m)" and "\<not> interrupted m"
    and "list_all (arrives_from now) evs" and "now \<le> now'"
    and "ready s'" and "h \<notin> fst ` set (pending s')"
  shows "nextStartTimeRef (step (DecodeDone k Rejected) t) = nextStartTimeRef t
    \<and> sourcesRef (step (DecodeDone k Rejected) t) = sourcesRef t
    \<and> scheduled (step (DecodeDone k Rejected) t) = scheduled t
    \<and> stopped (step (DecodeDone k Rejected) t) = stopped t
    \<and> run [Message h m now, DecodeDone h Rejected] s'
        = s'\<lparr>nextStartTimeRef := max (nextStartTimeRef s') now\<rparr>
    \<and> scheduled (run evs (run [Message h m now, DecodeDone h Rejected] s)) = scheduled (run evs s)
    \<and> sourcesRef (run evs (run [Message h m now, DecodeDone h Rejected] s)) = sourcesRef (run evs s)
    \<and> stopped (run evs (run [Message h m now, DecodeDone h Rejected] s)) = stopped (run evs s)
    \<and> scheduled (run (enqueue j now' d) (run [Message h m now, DecodeDone h Rejected] s))
        = scheduled s @ [(j, max (nextStartTimeRef s) now', d)]"
proof -
  let ?f = "run [Message h m now, DecodeDone h Rejected] s"
  have f: "?f = s\<lparr>nextStartTimeRef := max (nextStartTimeRef s) now\<rparr>"
    by (rule failed_message [OF assms(1,2,3)])
  have "sim now ?f s" unfolding f sim_def using assms(2) by simp
  then have "sim now (run evs ?f) (run evs s)" using assms(5) by (rule sim_run)
  then have later: "scheduled (run evs ?f) = scheduled (run evs s)
      \<and> sourcesRef (run evs ?f) = sourcesRef (run evs s)
      \<and> stopped (run evs ?f) = stopped (run evs s)"
    by (rule sim_observe)
  have r: "ready ?f" and fresh: "j \<notin> fst ` set (pending ?f)"
    unfolding f using assms(1,2) by (simp_all add: ready_def)
  have mx: "max (max (nextStartTimeRef s) now) now' = max (nextStartTimeRef s) now'"
    using assms(6) by simp
  have next1: "scheduled (run (enqueue j now' d) ?f) = scheduled s @ [(j, max (nextStartTimeRef s) now', d)]"
    unfolding run_enqueue [OF r fresh] unfolding f by (simp add: mx)
  show ?thesis
    using rejected_changes_nothing [of k t] later next1
      failed_message_reentrant [OF assms(7,8,3), of now]
    by (simp only: simp_thms)
qed

text \<open>
  A is playing with the cursor at 1. A payload arrives at clock 0.2 and its decode fails;
  the payload that arrives at clock 0.3 starts at 1, as it would without the failure.
\<close>

theorem decode_failure_contained_witness:
  "ready playing_A \<and> pending playing_A = [] \<and> truthy (audio_data (audio_message ''UklGRg==''))
   \<and> \<not> interrupted (audio_message ''UklGRg=='')
   \<and> list_all (arrives_from (1/5)) (enqueue 3 (3/10) (1/2) @ [Ended 0])
   \<and> (1/5 :: real) \<le> 3/10
   \<and> ready pending_B \<and> 3 \<notin> fst ` set (pending pending_B)
   \<and> nextStartTimeRef (step (DecodeDone 2 Rejected) pending_B) = 1
   \<and> sourcesRef (step (DecodeDone 2 Rejected) pending_B) = [0]
   \<and> scheduled (step (DecodeDone 2 Rejected) pending_B) = [(0, 0, 1)]
   \<and> scheduled (run (enqueue 3 (3/10) (1/2) @ [Ended 0])
        (run [Message 3 (audio_message ''UklGRg=='') (1/5), DecodeDone 3 Rejected] playing_A))
      = scheduled (run (enqueue 3 (3/10) (1/2) @ [Ended 0]) playing_A)
   \<and> scheduled (run (enqueue 3 (3/10) (1/2))
        (run [Message 3 (audio_message ''UklGRg=='') (1/5), DecodeDone 3 Rejected] playing_A))
      = [(0, 0, 1), (3, 1, 1/2)]
   \<and> nextStartTimeRef (run [Message 3 (audio_message ''UklGRg=='') (1/5), DecodeDone 3 Rejected] pending_B)
      = 1"
proof -
  have a: "truthy (audio_data (audio_message ''UklGRg==''))"
    by (simp add: audio_message_def truthy_def)
  have ni: "\<not> interrupted (audio_message ''UklGRg=='')" by (simp add: audio_message_def)
  have e: "list_all (arrives_from (1/5)) (enqueue 3 (3/10) (1/2) @ [Ended 0])"
    by (simp add: enqueue_def)
  have l: "(1/5 :: real) \<le> 3/10" by simp
  have f: "3 \<notin> fst ` set (pending pending_B)" by (simp add: pending_B_scheduler)
  show ?thesis
    using decode_failure_contained [OF playing_A_scheduler(1) playing_A_scheduler(2) a ni e l
        pending_B_scheduler(1) f, of 2 pending_B 3 "1/2"]
    by (simp del: step.simps add: a ni f enqueue_def playing_A_scheduler pending_B_scheduler)
qed

lemma live_ready: "outputAudioContextRef live \<noteq> None" "outputNodeRef live \<noteq> None"
  using live_scheduler(1) by (simp_all add: ready_def)

text \<open>
  Claim C6 as stated fails: the handler of payload 2 (arrived at clock 0) is suspended
  when payload 3 arrives at clock 5 and fails to decode. Unit 2 then starts at 5 and the
  payload that arrives next, at clock 5, starts at 6; had payload 3 not been delivered it
  would start at 5.
\<close>

theorem reentrant_failure_counterexample:
  "map_of (scheduled (run ([Message 2 (audio_message ''UklGRg=='') 0,
        Message 3 (audio_message ''UklGRg=='') 5, DecodeDone 3 Rejected,
        DecodeDone 2 (Decoded 1)] @ enqueue 4 5 (1/2)) live)) 4 = Some (6, 1/2)
   \<and> map_of (scheduled (run ([Message 2 (audio_message ''UklGRg=='') 0,
        DecodeDone 2 (Decoded 1)] @ enqueue 4 5 (1/2)) live)) 4 = Some (5, 1/2)"
  using live_ready
  by (simp add: run_def enqueue_def audio_message_def truthy_def onmessage_begin_def
      onmessage_resume_def onmessage_interruption_def set_add_def Let_def live_scheduler)

section \<open>Audio and interruption in one message\<close>

text \<open>
  A message carries audio and the interruption flag. When the output side is set up, its
  handler is suspended at the decode with the flag; whatever other callbacks run
  meanwhile, when the decode yields a buffer the rest of the handler runs as one step:
  the unit is started at the cursor as it is then, \<^verbatim>\<open>stop()\<close> is called on it with
  the rest of the set, the set is emptied and the cursor is 0. When the decode fails the
  handler ends there: no unit is started or inserted. When the output side is not set up,
  no unit is created and the interruption block runs at once.
\<close>

lemma audio_with_interruption:
  assumes "truthy (audio_data m)" and "interrupted m" and "ready s"
    and "h \<notin> fst ` set (pending s)" and "list_all (\<lambda>ev. \<not> settles h ev) evs"
    and "\<not> ready s'"
  shows "map_of (pending (run evs (step (Message h m now) s))) h = Some True
    \<and> scheduled (step (DecodeDone h (Decoded d)) (run evs (step (Message h m now) s)))
        = scheduled (run evs (step (Message h m now) s))
          @ [(h, nextStartTimeRef (run evs (step (Message h m now) s)), d)]
    \<and> (h \<in> stopped (step (DecodeDone h (Decoded d)) (run evs (step (Message h m now) s)))
        \<or> h \<in> stop_raises (run evs (step (Message h m now) s)))
    \<and> sourcesRef (step (DecodeDone h (Decoded d)) (run evs (step (Message h m now) s))) = []
    \<and> nextStartTimeRef (step (DecodeDone h (Decoded d)) (run evs (step (Message h m now) s))) = 0
    \<and> nextStartTimeRef (step (Message h m now) s) = max (nextStartTimeRef s) now
    \<and> sourcesRef (step (DecodeDone h Rejected) (run evs (step (Message h m now) s)))
        = sourcesRef (run evs (step (Message h m now) s))
    \<and> scheduled (step (DecodeDone h Rejected) (run evs (step (Message h m now) s)))
        = scheduled (run evs (step (Message h m now) s))
    \<and> sourcesRef (step (Message h m now) s') = []
    \<and> nextStartTimeRef (step (Message h m now) s') = 0
    \<and> scheduled (step (Message h m now) s') = scheduled s'"
proof -
  let ?s1 = "step (Message h m now) s"
  let ?t = "run evs ?s1"
  have s1: "?s1 = s\<lparr>nextStartTimeRef := max (nextStartTimeRef s) now,
       pending := pending s @ [(h, True)]\<rparr>"
    using begin_audio [OF assms(3) assms(1), of h now] assms(2) by simp
  have "map_of (pending ?s1) h = Some True"
    unfolding s1 using map_of_append_fresh [OF assms(4), of True] by simp
  then have look: "map_of (pending ?t) h = Some True"
    by (rule pending_survives_run [OF assms(5)])
  have skip: "\<not> (truthy (audio_data m) \<and> outputAudioContextRef s' \<noteq> None \<and> outputNodeRef s' \<noteq> None)"
    using assms(6) by (simp add: ready_def)
  have absent: "step (Message h m now) s' = interrupt s'"
    unfolding step.simps begin_skip [OF skip] onmessage_interruption_def
    using assms(2) by (simp only: if_True)
  have absent': "sourcesRef (step (Message h m now) s') = []"
    "nextStartTimeRef (step (Message h m now) s') = 0"
    "scheduled (step (Message h m now) s') = scheduled s'"
    unfolding absent by (simp_all add: interrupt_eq)
  have succ: "scheduled (step (DecodeDone h (Decoded d)) ?t) = scheduled ?t @ [(h, nextStartTimeRef ?t, d)]
    \<and> (h \<in> stopped (step (DecodeDone h (Decoded d)) ?t) \<or> h \<in> stop_raises ?t)
    \<and> sourcesRef (step (DecodeDone h (Decoded d)) ?t) = []
    \<and> nextStartTimeRef (step (DecodeDone h (Decoded d)) ?t) = 0"
    unfolding resume_with_interruption [OF look] by simp
  have first: "nextStartTimeRef ?s1 = max (nextStartTimeRef s) now"
    unfolding s1 by simp
  show ?thesis
    using look succ first rejected_changes_nothing [of h ?t] absent'
    by (simp only: simp_thms)
qed

text \<open>
  Unit A is playing; a message with audio and the flag arrives at clock 0.3, A ends
  during the decode, and the decode yields half a second.
\<close>

lemma audio_with_interruption_example:
  "truthy (audio_data audio_interruption_message) \<and> interrupted audio_interruption_message
   \<and> ready playing_A \<and> 2 \<notin> fst ` set (pending playing_A)
   \<and> list_all (\<lambda>ev. \<not> settles 2 ev) [Ended 0] \<and> \<not> ready init
   \<and> scheduled (step (DecodeDone 2 (Decoded (1/2)))
        (run [Ended 0] (step (Message 2 audio_interruption_message (3/10)) playing_A)))
        = [(0, 0, 1), (2, 1, 1/2)]
   \<and> 2 \<in> stopped (step (DecodeDone 2 (Decoded (1/2)))
        (run [Ended 0] (step (Message 2 audio_interruption_message (3/10)) playing_A)))
   \<and> sourcesRef (step (DecodeDone 2 (Decoded (1/2)))
        (run [Ended 0] (step (Message 2 audio_interruption_message (3/10)) playing_A))) = []
   \<and> nextStartTimeRef (step (DecodeDone 2 (Decoded (1/2)))
        (run [Ended 0] (step (Message 2 audio_interruption_message (3/10)) playing_A))) = 0
   \<and> sourcesRef (step (Message 2 audio_interruption_message (3/10)) init) = []"
proof -
  have a: "truthy (audio_data audio_interruption_message)"
    by (simp add: audio_interruption_message_def truthy_def)
  have i: "interrupted audio_interruption_message"
    by (simp add: audio_interruption_message_def)
  have f: "2 \<notin> fst ` set (pending playing_A)" by (simp add: playing_A_scheduler)
  have n: "list_all (\<lambda>ev. \<not> settles 2 ev) [Ended 0]" by simp
  have z: "\<not> ready init" by (simp add: ready_def init_def)
  have t: "run [Ended 0] (step (Message 2 audio_interruption_message (3/10)) playing_A)
      = playing_A\<lparr>pending := [(2, True)], sourcesRef := []\<rparr>"
    using playing_A_scheduler
    by (simp add: run_def begin_audio [OF playing_A_scheduler(1) a] i on_ended_def set_delete_def)
  show ?thesis
    using audio_with_interruption [OF a i playing_A_scheduler(1) f n z, of "3/10" "1/2"]
    by (simp del: step.simps add: a i f z t playing_A_scheduler)
qed

text \<open>
  Claim C10, on the code. Unit A is playing with the cursor at 1. A message with audio
  and the interruption flag arrives at clock 0.3 and its decode fails: the handler is
  rejected with the decode error, A stays in the set, nothing is stopped and the cursor
  stays at 1. The interruption of the message is lost. With the same message and a decode
  that yields a buffer, or with the flag alone, the set is emptied, A is stopped and the
  cursor is 0.
\<close>

theorem lost_interruption:
  "fst (onmessage_resume 2 Rejected (step (Message 2 audio_interruption_message (3/10)) playing_A))
     = Some DecodeError
   \<and> sourcesRef (run [Message 2 audio_interruption_message (3/10), DecodeDone 2 Rejected] playing_A)
     = [0]
   \<and> nextStartTimeRef (run [Message 2 audio_interruption_message (3/10), DecodeDone 2 Rejected] playing_A)
     = 1
   \<and> stopped (run [Message 2 audio_interruption_message (3/10), DecodeDone 2 Rejected] playing_A)
     = {}
   \<and> sourcesRef (run [Message 2 audio_interruption_message (3/10), DecodeDone 2 (Decoded (1/2))] playing_A)
     = []
   \<and> nextStartTimeRef (run [Message 2 audio_interruption_message (3/10), DecodeDone 2 (Decoded (1/2))] playing_A)
     = 0
   \<and> stopped (run [Message 2 audio_interruption_message (3/10), DecodeDone 2 (Decoded (1/2))] playing_A)
     = {2, 0}
   \<and> sourcesRef (step (Message 2 interruption_message (3/10)) playing_A) = []
   \<and> nextStartTimeRef (step (Message 2 interruption_message (3/10)) playing_A) = 0
   \<and> stopped (step (Message 2 interruption_message (3/10)) playing_A) = {0}"
proof -
  have a: "truthy (audio_data audio_interruption_message)"
    by (simp add: audio_interruption_message_def truthy_def)
  have i: "interrupted audio_interruption_message"
    by (simp add: audio_interruption_message_def)
  have f: "2 \<notin> fst ` set (pending playing_A)" by (simp add: playing_A_scheduler)
  let ?a = "step (Message 2 audio_interruption_message (3/10)) playing_A"
  have ea: "?a = playing_A\<lparr>nextStartTimeRef := 1, pending := [(2, True)]\<rparr>"
    unfolding step.simps begin_audio [OF playing_A_scheduler(1) a]
    by (simp add: i playing_A_scheduler)
  have look: "map_of (pending ?a) 2 = Some True" unfolding ea by simp
  have rej: "fst (onmessage_resume 2 Rejected ?a) = Some DecodeError"
    "snd (onmessage_resume 2 Rejected ?a) = ?a\<lparr>pending := []\<rparr>"
    using look by (simp_all add: onmessage_resume_def Let_def ea del: step.simps)
  have r1: "run [Message 2 audio_interruption_message (3/10), DecodeDone 2 Rejected] playing_A
      = ?a\<lparr>pending := []\<rparr>"
    using rej(2) by (simp add: run_def del: step.simps) simp
  have r2: "run [Message 2 audio_interruption_message (3/10), DecodeDone 2 (Decoded (1/2))] playing_A
      = step (DecodeDone 2 (Decoded (1/2))) ?a"
    by (simp add: run_def del: step.simps)
  have i2: "interrupted interruption_message" by (simp add: interruption_message_def)
  have a2: "\<not> truthy (audio_data interruption_message)"
    by (simp add: interruption_message_def truthy_def)
  show ?thesis
    unfolding r1 r2 resume_with_interruption [OF look] interruption_only [OF i2 a2]
    using rej(1) by (simp add: ea interrupt_eq playing_A_scheduler del: step.simps)
qed

section \<open>Interruption and suspended handlers\<close>






section \<open>Teardown\<close>

lemma stop_tracks_eq: "stop_tracks ts s = s\<lparr>stopped_tracks := stopped_tracks s \<union> set ts\<rparr>"
  unfolding stop_tracks_def
proof (induction ts arbitrary: s)
  case Nil
  then show ?case by simp
next
  case (Cons t ts)
  have "insert t (stopped_tracks s) \<union> set ts = stopped_tracks s \<union> set (t # ts)" by auto
  then show ?case by (simp add: Cons.IH)
qed

lemma cleanupAudio_refs:
  "processorRef (cleanupAudio s) = None" "sourceRef (cleanupAudio s) = None"
  "streamRef (cleanupAudio s) = None" "inputAudioContextRef (cleanupAudio s) = None"
  "outputAudioContextRef (cleanupAudio s) = None" "sourcesRef (cleanupAudio s) = []"
  by (simp_all add: cleanupAudio_def Let_def stop_all_eq stop_tracks_eq split: option.splits)

lemma cleanupAudio_keeps:
  "isConnected (cleanupAudio s) = isConnected s" "isTalking (cleanupAudio s) = isTalking s"
  "sessionRef (cleanupAudio s) = sessionRef s" "error (cleanupAudio s) = error s"
  "connects (cleanupAudio s) = connects s" "closed_sessions (cleanupAudio s) = closed_sessions s"
  "console (cleanupAudio s) = console s" "nextStartTimeRef (cleanupAudio s) = nextStartTimeRef s"
  "pending (cleanupAudio s) = pending s" "scheduled (cleanupAudio s) = scheduled s"
  by (simp_all add: cleanupAudio_def Let_def stop_all_eq stop_tracks_eq split: option.splits)

lemma cleanupAudio_effects:
  "stopped_tracks (cleanupAudio s)
     = stopped_tracks s \<union> (case streamRef s of None \<Rightarrow> {} | Some ts \<Rightarrow> set ts)"
  "closed_contexts (cleanupAudio s)
     = closed_contexts s \<union> set_option (inputAudioContextRef s) \<union> set_option (outputAudioContextRef s)"
  "disconnected (cleanupAudio s)
     = disconnected s \<union> set_option (processorRef s) \<union> set_option (sourceRef s)"
  "stopped (cleanupAudio s) = stopped s \<union> (set (sourcesRef s) - stop_raises s)"
  by (auto simp add: cleanupAudio_def Let_def stop_all_eq stop_tracks_eq split: option.splits)

lemma cleanupAudio_released: "released s (cleanupAudio s)"
  by (auto simp add: released_def cleanupAudio_effects split: option.splits)

lemma cleanupAudio_idle:
  assumes "processorRef s = None" and "sourceRef s = None" and "streamRef s = None"
    and "inputAudioContextRef s = None" and "outputAudioContextRef s = None"
    and "sourcesRef s = []"
  shows "cleanupAudio s = s"
  using assms by (simp add: cleanupAudio_def Let_def stop_all_eq)

lemma stopSession_try_keeps:
  "processorRef (stopSession_try p r s) = processorRef s"
  "sourceRef (stopSession_try p r s) = sourceRef s"
  "streamRef (stopSession_try p r s) = streamRef s"
  "inputAudioContextRef (stopSession_try p r s) = inputAudioContextRef s"
  "outputAudioContextRef (stopSession_try p r s) = outputAudioContextRef s"
  "sourcesRef (stopSession_try p r s) = sourcesRef s"
  by (simp_all add: stopSession_try_def session_close_def split: settled.splits)

lemma stopSession_try_errors:
  "stopSession_try p RejectedPromise s = s\<lparr>console := console s @ [''Error closing session'']\<rparr>"
  "stopSession_try p (Fulfilled True) s = s\<lparr>console := console s @ [''Error closing session'']\<rparr>"
  "stopSession_try p (Fulfilled False) s = s\<lparr>closed_sessions := insert p (closed_sessions s)\<rparr>"
  by (simp_all add: stopSession_try_def session_close_def)

lemma finish_idle: "sessionRef s = None \<Longrightarrow> idle (stopSession_finish s)"
  by (simp add: idle_def stopSession_finish_def cleanupAudio_refs cleanupAudio_keeps)

lemma finish_released:
  assumes "streamRef x = streamRef s" and "inputAudioContextRef x = inputAudioContextRef s"
    and "outputAudioContextRef x = outputAudioContextRef s"
  shows "released s (stopSession_finish x)"
  using cleanupAudio_released [of x] assms
  by (auto simp add: released_def stopSession_finish_def split: option.splits)

lemma stopSession_no_session:
  "sessionRef s = None \<Longrightarrow> stopSession w s = Some (stopSession_finish s)"
  by (simp add: stopSession_def)

lemma stopSession_settled:
  "sessionRef s = Some p \<Longrightarrow>
   stopSession (Some r) s = Some (stopSession_finish ((stopSession_try p r s)\<lparr>sessionRef := None\<rparr>))"
  by (simp add: stopSession_def)

lemma stopSession_pending: "sessionRef s = Some p \<Longrightarrow> stopSession None s = None"
  by (simp add: stopSession_def)

lemma stopSession_idle_released:
  assumes "stopSession w s = Some s'"
  shows "idle s' \<and> released s s'"
proof (cases "sessionRef s")
  case None
  then have "s' = stopSession_finish s" using assms by (simp add: stopSession_no_session)
  then show ?thesis using finish_idle [OF None] finish_released [of s s] by simp
next
  case (Some p)
  then obtain r where w: "w = Some r" using assms by (cases w) (simp_all add: stopSession_def)
  let ?x = "(stopSession_try p r s)\<lparr>sessionRef := None\<rparr>"
  have s': "s' = stopSession_finish ?x" using assms Some w by (simp add: stopSession_settled)
  have "idle (stopSession_finish ?x)" by (rule finish_idle) simp
  moreover have "released s (stopSession_finish ?x)"
    by (rule finish_released) (simp_all add: stopSession_try_keeps)
  ultimately show ?thesis by (simp add: s')
qed

lemma stopSession_of_idle: "idle s \<Longrightarrow> stopSession w s = Some s"
  by (simp add: idle_def stopSession_no_session stopSession_finish_def cleanupAudio_idle)

lemma lifecycle_states:
  "sessionRef connecting = Some 0" "streamRef connecting = Some [0]"
  "stopped_tracks connecting = {}" "closed_contexts connecting = {}"
  "sessionRef live = Some 0" "streamRef live = Some [0]" "isConnected live"
  "sessionRef errored = Some 0" "streamRef errored = Some [0]"
  "stopped_tracks errored = {}" "error errored = Some ''Connection error. Please try again.''"
  by (simp_all add: errored_def onerror_def live_def connecting_def onopen_def startSession_def
      startSession_begin_def startSession_resume_def init_def Let_def)

text \<open>
  Claim C5, as amended. \<^verbatim>\<open>stopSession\<close> awaits the session promise before it tears
  anything down. From every state, once that promise has settled (fulfilled or rejected,
  \<^verbatim>\<open>close()\<close> returning or throwing), the stop completes in Idle: nothing connected,
  every ref cleared, nothing playing, every track of the stream the state held stopped
  and both of its contexts closed. The same holds of the part of the stop that runs after
  the await, in whatever state \<open>x\<close> the callbacks that ran meanwhile have left.
\<close>

theorem stop_reaches_idle:
  "(case stopSession (Some r) s of None \<Rightarrow> False | Some s' \<Rightarrow> idle s' \<and> released s s')
   \<and> idle (stopSession_finish ((stopSession_try p r x)\<lparr>sessionRef := None\<rparr>))
   \<and> released x (stopSession_finish ((stopSession_try p r x)\<lparr>sessionRef := None\<rparr>))"
proof -
  have whole: "case stopSession (Some r) s of None \<Rightarrow> False | Some s' \<Rightarrow> idle s' \<and> released s s'"
  proof (cases "stopSession (Some r) s")
    case None
    then show ?thesis by (cases "sessionRef s") (simp_all add: stopSession_def)
  next
    case (Some s')
    then show ?thesis using stopSession_idle_released [OF Some] by simp
  qed
  have i: "idle (stopSession_finish ((stopSession_try p r x)\<lparr>sessionRef := None\<rparr>))"
    by (rule finish_idle) simp
  have rel: "released x (stopSession_finish ((stopSession_try p r x)\<lparr>sessionRef := None\<rparr>))"
    by (rule finish_released) (simp_all add: stopSession_try_keeps)
  show ?thesis using whole i rel by (simp only: simp_thms)
qed

lemma stop_from_live:
  "stopSession (Some (Fulfilled False)) live = Some stopped_live \<and> idle stopped_live
   \<and> released live stopped_live"
proof -
  have a: "stopSession (Some (Fulfilled False)) live = Some stopped_live"
    unfolding stopped_live_def by (rule stopSession_settled [OF lifecycle_states(5)])
  show ?thesis using stopSession_idle_released [OF a] a by simp
qed

text \<open>
  Claim C5 as stated fails: while the session promise stays pending, in the connecting
  state or after an error event that arrived while connecting, the stop does not resume;
  nothing is torn down and the track of the stream stays live.
\<close>

theorem stop_pending_counterexample:
  "stopSession None connecting = None \<and> stopSession None errored = None
   \<and> streamRef connecting = Some [0] \<and> stopped_tracks connecting = {}
   \<and> streamRef errored = Some [0] \<and> stopped_tracks errored = {}"
  by (simp add: lifecycle_states stopSession_pending [OF lifecycle_states(1)]
      stopSession_pending [OF lifecycle_states(8)])

lemma finish_effects:
  "stopped (stopSession_finish x) = stopped x \<union> (set (sourcesRef x) - stop_raises x)"
  "closed_sessions (stopSession_finish x) = closed_sessions x"
  "console (stopSession_finish x) = console x"
  by (simp_all add: stopSession_finish_def cleanupAudio_effects cleanupAudio_keeps)

lemma playing_A_session:
  "sessionRef playing_A = Some 0" "closed_sessions playing_A = {}" "console playing_A = []"
  by (simp_all add: playing_A_eq live_def connecting_def onopen_def startSession_def
      startSession_begin_def startSession_resume_def init_def Let_def)

text \<open>
  Claim C9, as amended. Once the awaited session promise has settled, the stop completes
  in Idle, and a second stop on the state it leaves completes whatever the promise would
  do and changes nothing. On a state with no session recorded, however much of the rest
  was acquired, the stop completes in Idle without awaiting anything. When the awaited
  promise is rejected, or \<^verbatim>\<open>close()\<close> throws, the error is logged and the teardown
  runs to the end all the same; when \<^verbatim>\<open>close()\<close> returns, the session is closed;
  in each case \<^verbatim>\<open>stop()\<close> is called on every playing unit. While the promise of a
  recorded session stays pending, the stop does not complete.
\<close>

theorem stop_idempotent_total:
  assumes "sessionRef t = None" and "sessionRef u = Some p"
  shows "(case stopSession (Some r) s of None \<Rightarrow> False
          | Some s1 \<Rightarrow> idle s1 \<and> stopSession w' s1 = Some s1)
    \<and> stopSession w' t = Some (stopSession_finish t)
    \<and> idle (stopSession_finish t) \<and> released t (stopSession_finish t)
    \<and> stopSession None u = None
    \<and> stopSession (Some RejectedPromise) u
        = Some (stopSession_finish (u\<lparr>console := console u @ [''Error closing session''],
                                      sessionRef := None\<rparr>))
    \<and> stopSession (Some (Fulfilled True)) u
        = Some (stopSession_finish (u\<lparr>console := console u @ [''Error closing session''],
                                      sessionRef := None\<rparr>))
    \<and> stopSession (Some (Fulfilled False)) u
        = Some (stopSession_finish (u\<lparr>closed_sessions := insert p (closed_sessions u),
                                      sessionRef := None\<rparr>))
    \<and> idle (stopSession_finish (u\<lparr>console := console u @ [''Error closing session''],
                                      sessionRef := None\<rparr>))
    \<and> released u (stopSession_finish (u\<lparr>console := console u @ [''Error closing session''],
                                      sessionRef := None\<rparr>))
    \<and> console (stopSession_finish (u\<lparr>console := console u @ [''Error closing session''],
                                      sessionRef := None\<rparr>))
        = console u @ [''Error closing session'']
    \<and> closed_sessions (stopSession_finish (u\<lparr>closed_sessions := insert p (closed_sessions u),
                                      sessionRef := None\<rparr>))
        = insert p (closed_sessions u)
    \<and> stopped (stopSession_finish (u\<lparr>closed_sessions := insert p (closed_sessions u),
                                      sessionRef := None\<rparr>))
        = stopped u \<union> (set (sourcesRef u) - stop_raises u)"
proof -
  have again: "case stopSession (Some r) s of None \<Rightarrow> False
          | Some s1 \<Rightarrow> idle s1 \<and> stopSession w' s1 = Some s1"
  proof (cases "stopSession (Some r) s")
    case None
    then show ?thesis by (cases "sessionRef s") (simp_all add: stopSession_def)
  next
    case (Some s1)
    have "idle s1" using stopSession_idle_released [OF Some] by simp
    then show ?thesis using stopSession_of_idle [of s1 w'] Some by simp
  qed
  have t: "stopSession w' t = Some (stopSession_finish t)"
    by (rule stopSession_no_session [OF assms(1)])
  have partial: "idle (stopSession_finish t) \<and> released t (stopSession_finish t)"
    by (rule stopSession_idle_released [OF t])
  let ?x = "u\<lparr>console := console u @ [''Error closing session''], sessionRef := None\<rparr>"
  have i: "idle (stopSession_finish ?x)" by (rule finish_idle) simp
  have rel: "released u (stopSession_finish ?x)" by (rule finish_released) simp_all
  have never: "stopSession None u = None" by (rule stopSession_pending [OF assms(2)])
  show ?thesis
    using again t partial i rel never
    by (simp add: stopSession_settled [OF assms(2)] stopSession_try_errors finish_effects)
qed

text \<open>
  A second stop after stopping the live session; a stop while the start still awaits the
  microphone; a stop while unit A is playing, with the promise rejected and with
  \<^verbatim>\<open>close()\<close> returning.
\<close>

theorem stop_idempotent_total_witness:
  "sessionRef awaiting_microphone = None \<and> sessionRef playing_A = Some 0
   \<and> (case stopSession (Some (Fulfilled False)) live of None \<Rightarrow> False
        | Some s1 \<Rightarrow> idle s1 \<and> stopSession None s1 = Some s1)
   \<and> stopSession None awaiting_microphone = Some (stopSession_finish awaiting_microphone)
   \<and> idle (stopSession_finish awaiting_microphone)
   \<and> released awaiting_microphone (stopSession_finish awaiting_microphone)
   \<and> stopSession (Some RejectedPromise) playing_A
        = Some (stopSession_finish (playing_A\<lparr>console := [''Error closing session''],
                                      sessionRef := None\<rparr>))
   \<and> stopSession (Some (Fulfilled False)) playing_A
        = Some (stopSession_finish (playing_A\<lparr>closed_sessions := {0}, sessionRef := None\<rparr>))
   \<and> idle (stopSession_finish (playing_A\<lparr>console := [''Error closing session''],
                                      sessionRef := None\<rparr>))
   \<and> console (stopSession_finish (playing_A\<lparr>console := [''Error closing session''],
                                      sessionRef := None\<rparr>)) = [''Error closing session'']
   \<and> closed_sessions (stopSession_finish (playing_A\<lparr>closed_sessions := {0}, sessionRef := None\<rparr>))
        = {0}
   \<and> stopped (stopSession_finish (playing_A\<lparr>closed_sessions := {0}, sessionRef := None\<rparr>))
        = {0}"
proof -
  have b: "sessionRef awaiting_microphone = None"
    by (simp add: awaiting_microphone_def startSession_begin_def init_def Let_def)
  show ?thesis
    using stop_idempotent_total [OF b playing_A_session(1),
        where r = "Fulfilled False" and s = live and w' = None]
    by (simp add: b playing_A_session playing_A_scheduler)
qed

text \<open>
  Claim C9 as stated fails: after an error event that arrived while connecting, the
  state is partly acquired (no processor, no source node) and a session promise is
  recorded; while that promise stays pending the stop does not complete.
\<close>

theorem stop_errored_counterexample:
  "sessionRef errored = Some 0 \<and> processorRef errored = None \<and> sourceRef errored = None
   \<and> error errored = Some ''Connection error. Please try again.''
   \<and> stopSession None errored = None"
proof -
  have "processorRef errored = None" "sourceRef errored = None"
    by (simp_all add: errored_def onerror_def connecting_def startSession_def
      startSession_begin_def startSession_resume_def init_def Let_def)
  then show ?thesis
    by (simp add: lifecycle_states stopSession_pending [OF lifecycle_states(8)])
qed

section \<open>A refused microphone\<close>

lemma startSession_begin_keeps:
  "isConnected (startSession_begin s) = isConnected s" "isTalking (startSession_begin s) = isTalking s"
  "sessionRef (startSession_begin s) = sessionRef s" "connects (startSession_begin s) = connects s"
  "closed_contexts (startSession_begin s) = closed_contexts s"
  "inputAudioContextRef (startSession_begin s) = Some (n_contexts s)"
  "outputAudioContextRef (startSession_begin s) = Some (Suc (n_contexts s))"
  "streamRef (startSession_begin s) = streamRef s"
  by (simp_all add: startSession_begin_def Let_def)

lemma startSession_denied:
  "startSession Denied s = cleanupAudio ((startSession_begin s)
     \<lparr>console := console (startSession_begin s) @ [''NotAllowedError''],
      error := Some ''Failed to access microphone or connect to AI.''\<rparr>)"
  by (simp add: startSession_def startSession_resume_def)

text \<open>
  Claim C7. A start from Idle whose \<^verbatim>\<open>getUserMedia\<close> is refused never calls
  \<^verbatim>\<open>ai.live.connect\<close>, sets the error message, and ends in Idle with the two contexts
  it had created closed. In whatever state the refusal is handled, every resource that
  state refers to is released and no session is opened.
\<close>

theorem denied_start_releases:
  assumes "idle s"
  shows "idle (startSession Denied s)
    \<and> connects (startSession Denied s) = connects s
    \<and> sessionRef (startSession Denied s) = None
    \<and> error (startSession Denied s) = Some ''Failed to access microphone or connect to AI.''
    \<and> inputAudioContextRef (startSession_begin s) = Some (n_contexts s)
    \<and> outputAudioContextRef (startSession_begin s) = Some (Suc (n_contexts s))
    \<and> n_contexts s \<in> closed_contexts (startSession Denied s)
    \<and> Suc (n_contexts s) \<in> closed_contexts (startSession Denied s)
    \<and> released t (startSession_resume Denied t)
    \<and> connects (startSession_resume Denied t) = connects t"
proof -
  have rel: "released t (startSession_resume Denied t)"
    using cleanupAudio_released [of "t\<lparr>console := console t @ [''NotAllowedError''],
      error := Some ''Failed to access microphone or connect to AI.''\<rparr>"]
    by (auto simp add: startSession_resume_def released_def split: option.splits)
  have con: "connects (startSession_resume Denied t) = connects t"
    by (simp add: startSession_resume_def cleanupAudio_keeps)
  show ?thesis
    using assms rel con
    by (simp add: startSession_denied idle_def cleanupAudio_refs cleanupAudio_keeps
        cleanupAudio_effects startSession_begin_keeps)
qed

theorem denied_start_releases_witness:
  "idle init \<and> idle (startSession Denied init)
   \<and> connects (startSession Denied init) = 0
   \<and> sessionRef (startSession Denied init) = None
   \<and> error (startSession Denied init) = Some ''Failed to access microphone or connect to AI.''
   \<and> inputAudioContextRef (startSession_begin init) = Some 0
   \<and> outputAudioContextRef (startSession_begin init) = Some (Suc 0)
   \<and> 0 \<in> closed_contexts (startSession Denied init)
   \<and> Suc 0 \<in> closed_contexts (startSession Denied init)"
proof -
  have i: "idle init" by (simp add: idle_def init_def)
  have n: "n_contexts init = 0" "connects init = 0" by (simp_all add: init_def)
  show ?thesis using denied_start_releases [OF i, of init] by (simp add: i n)
qed

section \<open>Capture\<close>

lemma onaudioprocess_eq:
  "onaudioprocess cb r f s =
     (if r = Delivered then s\<lparr>sent := sent s @ [cb f]\<rparr>
      else s\<lparr>console := console s @ [''Error sending audio input:'']\<rparr>)"
  by (cases r) (simp_all add: onaudioprocess_def session_send_def)

lemma capture_eq:
  "capture cb fs s = s\<lparr>sent := sent s @ delivered cb fs,
       console := console s @ replicate (failures fs) ''Error sending audio input:''\<rparr>"
proof (induction fs arbitrary: s)
  case Nil
  then show ?case by (simp add: delivered_def failures_def)
next
  case (Cons p fs)
  obtain f r where p: "p = (f, r)" by (cases p)
  show ?case
    by (cases "r = Delivered")
      (simp_all add: p Cons.IH onaudioprocess_eq delivered_def failures_def replicate_app_Cons_same)
qed

text \<open>
  Claim C8. A frame whose send fails (\<^verbatim>\<open>sendRealtimeInput\<close> throws, or the session
  promise is rejected) changes nothing but the console: one error is logged. The frame
  is not sent later, the frames before and after it are sent as without it, and the
  rest of the state is as it was. Over a whole capture, the chunks sent are those of the
  frames whose send succeeded, in order, and one error is logged for each failure.
\<close>

theorem send_failure_contained:
  assumes "r \<noteq> Delivered"
  shows "onaudioprocess cb r f s = s\<lparr>console := console s @ [''Error sending audio input:'']\<rparr>
    \<and> capture cb (before @ (f, r) # after) s
        = (capture cb (before @ after) s)
            \<lparr>console := console (capture cb (before @ after) s) @ [''Error sending audio input:'']\<rparr>
    \<and> sent (capture cb (before @ (f, r) # after) s) = sent s @ delivered cb before @ delivered cb after
    \<and> capture cb fs s = s\<lparr>sent := sent s @ delivered cb fs,
         console := console s @ replicate (failures fs) ''Error sending audio input:''\<rparr>"
  using assms
  by (simp add: capture_eq onaudioprocess_eq delivered_def failures_def replicate_app_Cons_same)

theorem send_failure_contained_witness:
  "SendRaises \<noteq> Delivered
   \<and> onaudioprocess sample_blob SendRaises [1] live
        = live\<lparr>console := console live @ [''Error sending audio input:'']\<rparr>
   \<and> sent (capture sample_blob ([([0], Delivered)] @ ([1], SendRaises) # [([2, 3], Delivered)]) live)
        = [sample_blob [0], sample_blob [2, 3]]
   \<and> capture sample_blob [([1], SessionRejected), ([2], Delivered)] live
        = live\<lparr>sent := [sample_blob [2]], console := [''Error sending audio input:'']\<rparr>"
proof -
  have n: "SendRaises \<noteq> Delivered" by simp
  have l: "sent live = []" "console live = []"
    by (simp_all add: live_def connecting_def onopen_def startSession_def startSession_begin_def
      startSession_resume_def init_def Let_def)
  show ?thesis
    using send_failure_contained [OF n, of sample_blob "[1]" live "[([0], Delivered)]"
        "[([2, 3], Delivered)]" "[([1], SessionRejected), ([2], Delivered)]"]
    by (simp del: capture.simps add: l capture_eq delivered_def failures_def)
qed

end
